theory Spec2Isabelle
  imports Main "HOL-Library.Word"
begin

unbundle bit_operations_syntax

section \<open>STM32 OTGv1 USB low level driver: FIFO allocator, packet primitives, fill engine\<close>

text \<open>
  The embedding follows \<^verbatim>\<open>STM32/OTGv1/usb_lld.c\<close>. Machine integers
  (\<^verbatim>\<open>uint32_t\<close>, \<^verbatim>\<open>size_t\<close>) are 32-bit words where their wrap-around can
  be observed; loop counters that only count down under a guard are natural numbers.
  Pointers are addresses (natural numbers) into a byte-addressed store.
\<close>

type_synonym u8 = "8 word"
type_synonym u32 = "32 word"
type_synonym addr = nat
type_synonym memory = "addr \<Rightarrow> u8"

subsection \<open>Build configuration and the FIFO RAM allocator\<close>

text \<open>
  The macros \<^verbatim>\<open>STM32_USB_OTG1_RX_FIFO_SIZE\<close> (bytes), \<^verbatim>\<open>STM32_OTG_FIFO_MEM_SIZE\<close>
  (words), \<^verbatim>\<open>DTXFSTS_INEPTFSAV_MASK\<close> (the free-space field of the TX FIFO status
  register) and the switch that enables \<^verbatim>\<open>chDbgAssert\<close> are declared in headers that
  are not part of the sources at hand; they are parameters of the model.
\<close>

record otg_config =
  STM32_USB_OTG1_RX_FIFO_SIZE :: u32
  STM32_OTG_FIFO_MEM_SIZE :: u32
  CH_DBG_ENABLE_ASSERTS :: bool
  DTXFSTS_INEPTFSAV_MASK :: u32

record usb_driver =
  pmnext :: u32

text \<open>A failed \<^verbatim>\<open>chDbgAssert\<close> halts the system: the call never returns.\<close>

datatype error = DbgPanic

definition otg_ram_reset :: "otg_config \<Rightarrow> usb_driver \<Rightarrow> usb_driver" where
  "otg_ram_reset cfg usbp = usbp\<lparr>pmnext := STM32_USB_OTG1_RX_FIFO_SIZE cfg div 4\<rparr>"

text \<open>
  \<^verbatim>\<open>next = usbp->pmnext; usbp->pmnext += size; chDbgAssert(usbp->pmnext <= MEM_SIZE); return next;\<close>
  The driver state is returned in both outcomes: it is updated before the assertion is
  evaluated.
\<close>

definition otg_ram_alloc :: "otg_config \<Rightarrow> usb_driver \<Rightarrow> u32 \<Rightarrow> usb_driver \<times> (error + u32)" where
  "otg_ram_alloc cfg usbp sz =
     (let next = pmnext usbp;
          usbp' = usbp\<lparr>pmnext := pmnext usbp + sz\<rparr>
      in if CH_DBG_ENABLE_ASSERTS cfg \<and> \<not> (pmnext usbp' \<le> STM32_OTG_FIFO_MEM_SIZE cfg)
         then (usbp', Inl DbgPanic)
         else (usbp', Inr next))"

text \<open>
  A sequence of allocations within one activation cycle, as issued by \<^verbatim>\<open>usb_lld_reset\<close>
  and the following \<^verbatim>\<open>usb_lld_init_endpoint\<close> calls: the offsets returned so far are
  collected, and a halt stops the sequence.
\<close>

fun otg_ram_alloc_seq :: "otg_config \<Rightarrow> usb_driver \<Rightarrow> u32 list \<Rightarrow> usb_driver \<times> (error + u32 list)" where
  "otg_ram_alloc_seq cfg usbp [] = (usbp, Inr [])"
| "otg_ram_alloc_seq cfg usbp (sz # szs) =
     (case otg_ram_alloc cfg usbp sz of
        (usbp', Inl e) \<Rightarrow> (usbp', Inl e)
      | (usbp', Inr off) \<Rightarrow>
          (case otg_ram_alloc_seq cfg usbp' szs of
             (usbp'', Inl e) \<Rightarrow> (usbp'', Inl e)
           | (usbp'', Inr offs) \<Rightarrow> (usbp'', Inr (off # offs))))"

text \<open>The offsets a sequence of requests is expected to receive: the running sums.\<close>

fun running_offsets :: "nat \<Rightarrow> nat list \<Rightarrow> nat list" where
  "running_offsets base [] = []"
| "running_offsets base (s # ss) = base # running_offsets (base + s) ss"

text \<open>A sample configuration, for the evaluations below.\<close>

definition example_config :: otg_config where
  "example_config =
     \<lparr>STM32_USB_OTG1_RX_FIFO_SIZE = 128, STM32_OTG_FIFO_MEM_SIZE = 384,
      CH_DBG_ENABLE_ASSERTS = False, DTXFSTS_INEPTFSAV_MASK = 0xFFFF\<rparr>"

subsection \<open>Words in the byte store and the FIFO registers\<close>

text \<open>
  \<^verbatim>\<open>*((uint32_t *)buf)\<close>: an unaligned word access, least significant byte first.
\<close>

definition load32 :: "memory \<Rightarrow> addr \<Rightarrow> u32" where
  "load32 m a =
     ucast (m a) OR push_bit 8 (ucast (m (a + 1))) OR push_bit 16 (ucast (m (a + 2)))
       OR push_bit 24 (ucast (m (a + 3)))"

definition store32 :: "memory \<Rightarrow> addr \<Rightarrow> u32 \<Rightarrow> memory" where
  "store32 m a w =
     m(a := ucast w, a + 1 := ucast (drop_bit 8 w), a + 2 := ucast (drop_bit 16 w),
       a + 3 := ucast (drop_bit 24 w))"

text \<open>
  A TX FIFO register is the list of the words written to it, oldest first. The RX FIFO
  register is the list of the words still to be read; the value the hardware returns
  when it is read empty is not specified, the model returns zero.
\<close>

definition fifo_read :: "u32 list \<Rightarrow> u32 \<times> u32 list" where
  "fifo_read fifop = (case fifop of [] \<Rightarrow> (0, []) | w # ws \<Rightarrow> (w, ws))"

fun otg_do_push :: "memory \<Rightarrow> u32 list \<Rightarrow> addr \<Rightarrow> nat \<Rightarrow> u32 list \<times> addr" where
  "otg_do_push mem fifop buf 0 = (fifop, buf)"
| "otg_do_push mem fifop buf (Suc n) = otg_do_push mem (fifop @ [load32 mem buf]) (buf + 4) n"

fun otg_do_pop :: "u32 list \<Rightarrow> memory \<Rightarrow> addr \<Rightarrow> nat \<Rightarrow> u32 list \<times> memory \<times> addr" where
  "otg_do_pop fifop mem buf 0 = (fifop, mem, buf)"
| "otg_do_pop fifop mem buf (Suc n) =
     (let (w, fifop') = fifo_read fifop
      in otg_do_pop fifop' (store32 mem buf w) (buf + 4) n)"

definition otg_fifo_write_from_buffer :: "memory \<Rightarrow> u32 list \<Rightarrow> addr \<Rightarrow> u32 \<Rightarrow> u32 list" where
  "otg_fifo_write_from_buffer mem fifop buf n =
     fst (otg_do_push mem fifop buf (unat ((n + 3) div 4)))"

subsection \<open>Kernel objects: threads and I/O queues\<close>

type_synonym tid = nat
type_synonym msg_t = int

text \<open>
  Modelled from the spec: the kernel (\<^verbatim>\<open>chSchReadyI\<close>, \<^verbatim>\<open>fifo_remove\<close>,
  \<^verbatim>\<open>notempty\<close>, \<^verbatim>\<open>Q_OK\<close>) and the queue structure are external collaborators
  whose code is not at hand. A woken thread is appended to the ready list; the list of
  waiting threads is served first in, first out; \<^verbatim>\<open>Q_OK\<close> is the success message.
  The critical section (\<^verbatim>\<open>chSysLock\<close>, \<^verbatim>\<open>chSysUnlock\<close>) and
  \<^verbatim>\<open>chSchRescheduleS\<close> have no effect on the sequential state.
\<close>

record kernel =
  rlist :: "tid list"
  rdymsg :: "tid \<Rightarrow> msg_t"

definition Q_OK :: msg_t where
  "Q_OK = 0"

definition chSchReadyI :: "kernel \<Rightarrow> tid \<Rightarrow> kernel" where
  "chSchReadyI k tp = k\<lparr>rlist := rlist k @ [tp]\<rparr>"

record queue =
  q_waiting :: "tid list"
  q_counter :: u32
  q_buffer :: addr
  q_top :: addr
  q_wrptr :: addr
  q_rdptr :: addr

text \<open>
  \<^verbatim>\<open>while (notempty(&qp->q_waiting)) chSchReadyI(fifo_remove(&qp->q_waiting))->p_u.rdymsg = Q_OK;\<close>
\<close>

fun wake_waiting :: "kernel \<Rightarrow> tid list \<Rightarrow> kernel \<times> tid list" where
  "wake_waiting k [] = (k, [])"
| "wake_waiting k (tp # tps) =
     wake_waiting ((chSchReadyI k tp)\<lparr>rdymsg := (rdymsg (chSchReadyI k tp))(tp := Q_OK)\<rparr>) tps"

text \<open>
  \<^verbatim>\<open>(p - q) / 4\<close> assigned to a \<^verbatim>\<open>uint32_t\<close>: the pointer difference is signed, the
  division truncates towards zero and the conversion wraps.
\<close>

definition ptrdiff_words :: "addr \<Rightarrow> addr \<Rightarrow> nat" where
  "ptrdiff_words p q =
     (if q \<le> p then (p - q) div 4 else (2 ^ 32 - (q - p) div 4) mod 2 ^ 32)"

text \<open>The outcome of one pass through a loop body: leave the loop, or test the guard again.\<close>

datatype ('r, 's) flow = Break 'r | Again 's

subsection \<open>Writing a TX FIFO from an output queue\<close>

text \<open>
  The inner loop \<^verbatim>\<open>while ((ntogo > 0) && (i < 4))\<close> that assembles one word from
  single bytes, wrapping the read pointer after each byte.
\<close>

function wq_bytes :: "memory \<Rightarrow> queue \<Rightarrow> nat \<Rightarrow> u32 \<Rightarrow> nat \<Rightarrow> queue \<times> nat \<times> u32" where
  "wq_bytes mem oqp ntogo w i =
     (if ntogo > 0 \<and> i < 4 then
        wq_bytes mem
          (if q_rdptr oqp + 1 \<ge> q_top oqp then oqp\<lparr>q_rdptr := q_buffer oqp\<rparr>
           else oqp\<lparr>q_rdptr := q_rdptr oqp + 1\<rparr>)
          (ntogo - 1)
          (w OR push_bit (i * 8) (ucast (mem (q_rdptr oqp))))
          (i + 1)
      else (oqp, ntogo, w))"
  by pat_completeness auto
termination
  by (relation "measure (\<lambda>(mem, oqp, ntogo, w, i). ntogo)") auto

text \<open>
  The rest of the outer loop body after the burst block: \<^verbatim>\<open>if (ntogo <= 0) break;\<close>,
  then one word assembled byte by byte and written to the FIFO.
\<close>

definition wq_tail :: "memory \<Rightarrow> queue \<Rightarrow> u32 list \<Rightarrow> nat
    \<Rightarrow> (queue \<times> u32 list, queue \<times> u32 list \<times> nat) flow" where
  "wq_tail mem oqp fifop ntogo =
     (if ntogo \<le> 0 then Break (oqp, fifop)
      else let (oqp', ntogo', w) = wq_bytes mem oqp ntogo 0 0
           in Again (oqp', fifop @ [w], ntogo'))"

definition wq_body :: "memory \<Rightarrow> queue \<times> u32 list \<times> nat
    \<Rightarrow> (queue \<times> u32 list, queue \<times> u32 list \<times> nat) flow" where
  "wq_body mem s =
     (case s of (oqp, fifop, ntogo) \<Rightarrow>
        let nw = ntogo div 4 in
        if nw > 0 then
          let nw2end = ptrdiff_words (q_top oqp) (q_rdptr oqp);
              streak = (if nw \<le> nw2end then nw else nw2end);
              ntogo1 = ntogo - streak * 4;
              (fifop1, rd1) = otg_do_push mem fifop (q_rdptr oqp) streak;
              oqp1 = oqp\<lparr>q_rdptr := rd1\<rparr>
          in if q_rdptr oqp1 \<ge> q_top oqp1
             then Again (oqp1\<lparr>q_rdptr := q_buffer oqp1\<rparr>, fifop1, ntogo1)
             else wq_tail mem oqp1 fifop1 ntogo1
        else wq_tail mem oqp fifop ntogo)"

text \<open>The outer loop \<^verbatim>\<open>while (ntogo > 0)\<close>; it need not terminate on a malformed queue.\<close>

partial_function (option) wq_loop :: "memory \<Rightarrow> queue \<times> u32 list \<times> nat
    \<Rightarrow> (queue \<times> u32 list) option" where
  "wq_loop mem s =
     (if snd (snd s) > 0 then
        (case wq_body mem s of
           Break r \<Rightarrow> Some r
         | Again s' \<Rightarrow> wq_loop mem s')
      else Some (fst s, fst (snd s)))"

definition otg_fifo_write_from_queue :: "memory \<Rightarrow> kernel \<Rightarrow> queue \<Rightarrow> u32 list \<Rightarrow> u32
    \<Rightarrow> (kernel \<times> queue \<times> u32 list) option" where
  "otg_fifo_write_from_queue mem k oqp fifop n =
     (case wq_loop mem (oqp, fifop, unat n) of
        None \<Rightarrow> None
      | Some (oqp1, fifop1) \<Rightarrow>
          let oqp2 = oqp1\<lparr>q_counter := q_counter oqp1 + n\<rparr>;
              (k', waiting') = wake_waiting k (q_waiting oqp2)
          in Some (k', oqp2\<lparr>q_waiting := waiting'\<rparr>, fifop1))"

subsection \<open>Reading the RX FIFO\<close>

text \<open>
  The loop \<^verbatim>\<open>while (n)\<close> of \<^verbatim>\<open>otg_fifo_read_to_buffer\<close>, \<open>n\<close> and \<open>mx\<close> counting
  words: every pass reads a word from the FIFO, and stores it while \<open>mx\<close> is not zero.
\<close>

function rb_loop :: "memory \<Rightarrow> u32 list \<Rightarrow> addr \<Rightarrow> nat \<Rightarrow> nat \<Rightarrow> memory \<times> u32 list" where
  "rb_loop mem fifop buf n mx =
     (if n \<noteq> 0 then
        let (w, fifop') = fifo_read fifop
        in if mx \<noteq> 0 then rb_loop (store32 mem buf w) fifop' (buf + 4) (n - 1) (mx - 1)
           else rb_loop mem fifop' buf (n - 1) mx
      else (mem, fifop))"
  by pat_completeness auto
termination
  by (relation "measure (\<lambda>(mem, fifop, buf, n, mx). n)") auto

definition otg_fifo_read_to_buffer :: "memory \<Rightarrow> u32 list \<Rightarrow> addr \<Rightarrow> u32 \<Rightarrow> u32
    \<Rightarrow> memory \<times> u32 list" where
  "otg_fifo_read_to_buffer mem fifop buf n mx =
     rb_loop mem fifop buf (unat ((n + 3) div 4)) (unat ((mx + 3) div 4))"

text \<open>
  The inner loop of \<^verbatim>\<open>otg_fifo_read_to_queue\<close> that stores the bytes of one word,
  wrapping the write pointer after each byte, and the rest of the outer loop body after
  the burst block.
\<close>

function rq_bytes :: "memory \<Rightarrow> queue \<Rightarrow> nat \<Rightarrow> u32 \<Rightarrow> nat \<Rightarrow> memory \<times> queue \<times> nat" where
  "rq_bytes mem iqp ntogo w i =
     (if ntogo > 0 \<and> i < 4 then
        rq_bytes (mem(q_wrptr iqp := ucast (drop_bit (i * 8) w)))
          (if q_wrptr iqp + 1 \<ge> q_top iqp then iqp\<lparr>q_wrptr := q_buffer iqp\<rparr>
           else iqp\<lparr>q_wrptr := q_wrptr iqp + 1\<rparr>)
          (ntogo - 1) w (i + 1)
      else (mem, iqp, ntogo))"
  by pat_completeness auto
termination
  by (relation "measure (\<lambda>(mem, iqp, ntogo, w, i). ntogo)") auto

definition rq_tail :: "memory \<Rightarrow> queue \<Rightarrow> u32 list \<Rightarrow> nat
    \<Rightarrow> (memory \<times> queue \<times> u32 list, memory \<times> queue \<times> u32 list \<times> nat) flow" where
  "rq_tail mem iqp fifop ntogo =
     (if ntogo \<le> 0 then Break (mem, iqp, fifop)
      else let (w, fifop') = fifo_read fifop;
               (mem', iqp', ntogo') = rq_bytes mem iqp ntogo w 0
           in Again (mem', iqp', fifop', ntogo'))"

text \<open>
  The length of the whole-word burst of \<^verbatim>\<open>otg_fifo_read_to_queue\<close>. The source
  computes the words up to the end of the buffer as
  \<^verbatim>\<open>(iqp->q_wrptr - iqp->q_wrptr) / 4\<close>.
\<close>

definition rq_streak :: "queue \<Rightarrow> nat \<Rightarrow> nat" where
  "rq_streak iqp nw =
     (let nw2end = ptrdiff_words (q_wrptr iqp) (q_wrptr iqp)
      in if nw \<le> nw2end then nw else nw2end)"

definition rq_body :: "memory \<times> queue \<times> u32 list \<times> nat
    \<Rightarrow> (memory \<times> queue \<times> u32 list, memory \<times> queue \<times> u32 list \<times> nat) flow" where
  "rq_body s =
     (case s of (mem, iqp, fifop, ntogo) \<Rightarrow>
        let nw = ntogo div 4 in
        if nw > 0 then
          let streak = rq_streak iqp nw;
              ntogo1 = ntogo - streak * 4;
              (fifop1, mem1, wr1) = otg_do_pop fifop mem (q_wrptr iqp) streak;
              iqp1 = iqp\<lparr>q_wrptr := wr1\<rparr>
          in if q_wrptr iqp1 \<ge> q_top iqp1
             then Again (mem1, iqp1\<lparr>q_wrptr := q_buffer iqp1\<rparr>, fifop1, ntogo1)
             else rq_tail mem1 iqp1 fifop1 ntogo1
        else rq_tail mem iqp fifop ntogo)"

partial_function (option) rq_loop :: "memory \<times> queue \<times> u32 list \<times> nat
    \<Rightarrow> (memory \<times> queue \<times> u32 list) option" where
  "rq_loop s =
     (if snd (snd (snd s)) > 0 then
        (case rq_body s of
           Break r \<Rightarrow> Some r
         | Again s' \<Rightarrow> rq_loop s')
      else Some (fst s, fst (snd s), fst (snd (snd s))))"

definition otg_fifo_read_to_queue :: "memory \<Rightarrow> kernel \<Rightarrow> queue \<Rightarrow> u32 list \<Rightarrow> u32
    \<Rightarrow> (memory \<times> kernel \<times> queue \<times> u32 list) option" where
  "otg_fifo_read_to_queue mem k iqp fifop n =
     (case rq_loop (mem, iqp, fifop, unat n) of
        None \<Rightarrow> None
      | Some (mem1, iqp1, fifop1) \<Rightarrow>
          let iqp2 = iqp1\<lparr>q_counter := q_counter iqp1 + n\<rparr>;
              (k', waiting') = wake_waiting k (q_waiting iqp2)
          in Some (mem1, k', iqp2\<lparr>q_waiting := waiting'\<rparr>, fifop1))"

subsection \<open>Circular buffers as byte sequences\<close>

text \<open>
  The reference notions the properties below are stated with: the position after a
  byte of a circular buffer that extends from \<open>b\<close> up to, not including, \<open>t\<close>; the
  \<open>n\<close> bytes found from a position on; storing a byte sequence from a position on; and
  the packing of bytes into 32-bit words, least significant byte first, the last word
  padded with zeros.
\<close>

definition ring_next :: "addr \<Rightarrow> addr \<Rightarrow> addr \<Rightarrow> addr" where
  "ring_next b t p = (if p + 1 \<ge> t then b else p + 1)"

fun ring_adv :: "addr \<Rightarrow> addr \<Rightarrow> addr \<Rightarrow> nat \<Rightarrow> addr" where
  "ring_adv b t p 0 = p"
| "ring_adv b t p (Suc n) = ring_adv b t (ring_next b t p) n"

fun ring_bytes :: "memory \<Rightarrow> addr \<Rightarrow> addr \<Rightarrow> addr \<Rightarrow> nat \<Rightarrow> u8 list" where
  "ring_bytes mem b t p 0 = []"
| "ring_bytes mem b t p (Suc n) = mem p # ring_bytes mem b t (ring_next b t p) n"

fun ring_store :: "memory \<Rightarrow> addr \<Rightarrow> addr \<Rightarrow> addr \<Rightarrow> u8 list \<Rightarrow> memory" where
  "ring_store mem b t p [] = mem"
| "ring_store mem b t p (x # xs) = ring_store (mem(p := x)) b t (ring_next b t p) xs"

fun le_word :: "u8 list \<Rightarrow> u32" where
  "le_word [] = 0"
| "le_word (x # xs) = ucast x OR push_bit 8 (le_word xs)"

fun pack_words :: "u8 list \<Rightarrow> u32 list" where
  "pack_words [] = []"
| "pack_words (x # xs) = le_word (take 4 (x # xs)) # pack_words (drop 3 xs)"

definition word_bytes :: "u32 \<Rightarrow> u8 list" where
  "word_bytes w = [ucast w, ucast (drop_bit 8 w), ucast (drop_bit 16 w), ucast (drop_bit 24 w)]"

text \<open>
  A well-formed queue, as the kernel's queue operations keep it: the pointer a routine
  moves (the read pointer of an output queue, the write pointer of an input queue) lies
  inside the buffer, which is then not empty.
\<close>

definition oq_ok :: "queue \<Rightarrow> bool" where
  "oq_ok oqp = (q_buffer oqp \<le> q_rdptr oqp \<and> q_rdptr oqp < q_top oqp)"

definition iq_ok :: "queue \<Rightarrow> bool" where
  "iq_ok iqp = (q_buffer iqp \<le> q_wrptr iqp \<and> q_wrptr iqp < q_top iqp)"

text \<open>
  A byte-at-a-time copy from the RX FIFO into an input queue, following the words of
  the description and not the code: the words needed for \<open>n\<close> bytes are read, their
  bytes are stored one by one from the write pointer on, the pointer wrapping after each
  byte, and the queue is updated as the routine does.
\<close>

fun fifo_take :: "nat \<Rightarrow> u32 list \<Rightarrow> u32 list \<times> u32 list" where
  "fifo_take 0 fifop = ([], fifop)"
| "fifo_take (Suc k) fifop =
     (let (w, fifop') = fifo_read fifop;
          (ws, rest) = fifo_take k fifop'
      in (w # ws, rest))"

definition bytewise_read_to_queue :: "memory \<Rightarrow> kernel \<Rightarrow> queue \<Rightarrow> u32 list \<Rightarrow> u32
    \<Rightarrow> memory \<times> kernel \<times> queue \<times> u32 list" where
  "bytewise_read_to_queue mem k iqp fifop n =
     (let (ws, rest) = fifo_take ((unat n + 3) div 4) fifop;
          bytes = take (unat n) (concat (map word_bytes ws));
          mem' = ring_store mem (q_buffer iqp) (q_top iqp) (q_wrptr iqp) bytes;
          wr' = ring_adv (q_buffer iqp) (q_top iqp) (q_wrptr iqp) (unat n);
          (k', waiting') = wake_waiting k (q_waiting iqp)
      in (mem', k',
          iqp\<lparr>q_wrptr := wr', q_counter := q_counter iqp + n, q_waiting := waiting'\<rparr>,
          rest))"

subsection \<open>The transmit fill engine\<close>

text \<open>
  The state of an IN endpoint (\<^verbatim>\<open>USBInEndpointState\<close>): the flag \<^verbatim>\<open>txqueued\<close> selects
  which member of the union \<^verbatim>\<open>mode\<close> is in use, the linear buffer pointer or the output
  queue.
\<close>

record usb_in_endpoint_state =
  txqueued :: bool
  txsize :: u32
  txcnt :: u32
  txbuf :: addr
  txqueue :: queue

text \<open>
  What \<^verbatim>\<open>otg_txfifo_handler\<close> works on: the store, the kernel, the endpoint state and
  the TX FIFO register of the endpoint. The status register \<^verbatim>\<open>DTXFSTS\<close> is volatile:
  the values the hardware returns are given by a function of the number of reads made so
  far. The field \<open>pushed\<close> records, for each packet written to the FIFO, its size and the
  transferred-byte count after it; the code does not read it.
\<close>

record tx_state =
  ram :: memory
  kern :: kernel
  in_state :: usb_in_endpoint_state
  txfifo :: "u32 list"
  DTXFSTS_reads :: nat
  pushed :: "(u32 \<times> u32) list"

text \<open>
  \<^verbatim>\<open>n = txsize - txcnt; if (n > in_maxsize) n = in_maxsize;\<close>
\<close>

definition tx_packet_size :: "16 word \<Rightarrow> usb_in_endpoint_state \<Rightarrow> u32" where
  "tx_packet_size in_maxsize isp =
     (let n = txsize isp - txcnt isp
      in if n > ucast in_maxsize then ucast in_maxsize else n)"

text \<open>
  \<^verbatim>\<open>((OTG->ie[ep].DTXFSTS & DTXFSTS_INEPTFSAV_MASK) * 4) < n\<close>
\<close>

definition tx_space_short :: "otg_config \<Rightarrow> (nat \<Rightarrow> u32) \<Rightarrow> tx_state \<Rightarrow> u32 \<Rightarrow> bool" where
  "tx_space_short cfg dtxfsts s n =
     ((dtxfsts (DTXFSTS_reads s) AND DTXFSTS_INEPTFSAV_MASK cfg) * 4 < n)"

text \<open>The two cases, linear buffer or queue, of writing one packet.\<close>

definition tx_write :: "tx_state \<Rightarrow> u32 \<Rightarrow> tx_state option" where
  "tx_write s n =
     (if txqueued (in_state s) then
        (case otg_fifo_write_from_queue (ram s) (kern s) (txqueue (in_state s)) (txfifo s) n of
           None \<Rightarrow> None
         | Some (k', oqp', fifop') \<Rightarrow>
             Some (s\<lparr>kern := k', txfifo := fifop',
                     in_state := (in_state s)\<lparr>txqueue := oqp'\<rparr>\<rparr>))
      else
        Some (s\<lparr>txfifo := otg_fifo_write_from_buffer (ram s) (txfifo s) (txbuf (in_state s)) n,
                in_state := (in_state s)\<lparr>txbuf := txbuf (in_state s) + unat n\<rparr>\<rparr>))"

text \<open>\<^verbatim>\<open>txcnt += n\<close>, and the record of the packet.\<close>

definition tx_count :: "tx_state \<Rightarrow> u32 \<Rightarrow> tx_state" where
  "tx_count s n =
     s\<lparr>in_state := (in_state s)\<lparr>txcnt := txcnt (in_state s) + n\<rparr>,
       pushed := pushed s @ [(n, txcnt (in_state s) + n)]\<rparr>"

text \<open>
  The loop \<^verbatim>\<open>while (TRUE)\<close> of \<^verbatim>\<open>otg_txfifo_handler\<close>: it returns \<open>True\<close> at the
  transaction end condition, \<open>False\<close> when the FIFO has not enough room for the next
  packet, and otherwise writes the packet and goes round again.
\<close>

partial_function (option) otg_txfifo_handler :: "otg_config \<Rightarrow> (nat \<Rightarrow> u32) \<Rightarrow> 16 word
    \<Rightarrow> tx_state \<Rightarrow> (bool \<times> tx_state) option" where
  "otg_txfifo_handler cfg dtxfsts in_maxsize s =
     (if txcnt (in_state s) \<ge> txsize (in_state s) then Some (True, s)
      else if tx_space_short cfg dtxfsts s (tx_packet_size in_maxsize (in_state s))
      then Some (False, s\<lparr>DTXFSTS_reads := DTXFSTS_reads s + 1\<rparr>)
      else
        (case tx_write (s\<lparr>DTXFSTS_reads := DTXFSTS_reads s + 1\<rparr>)
                (tx_packet_size in_maxsize (in_state s)) of
           None \<Rightarrow> None
         | Some s' \<Rightarrow>
             otg_txfifo_handler cfg dtxfsts in_maxsize
               (tx_count s' (tx_packet_size in_maxsize (in_state s)))))"

text \<open>
  The words a sequence of packets puts into the TX FIFO, stated from the source of the
  data and not from the routines: a packet of \<open>n\<close> bytes from a linear buffer is the
  \<open>\<lceil>n / 4\<rceil>\<close> words found at the buffer pointer, which then moves on by \<open>n\<close>; a packet
  from a queue is its next \<open>n\<close> bytes packed into words, the read pointer moving on by
  \<open>n\<close> around the buffer.
\<close>

fun linear_packets :: "memory \<Rightarrow> addr \<Rightarrow> nat list \<Rightarrow> u32 list list" where
  "linear_packets mem buf [] = []"
| "linear_packets mem buf (n # ns) =
     pack_words (map mem [buf ..< buf + 4 * ((n + 3) div 4)]) # linear_packets mem (buf + n) ns"

fun queue_packets :: "memory \<Rightarrow> addr \<Rightarrow> addr \<Rightarrow> addr \<Rightarrow> nat list \<Rightarrow> u32 list list" where
  "queue_packets mem b t p [] = []"
| "queue_packets mem b t p (n # ns) =
     pack_words (ring_bytes mem b t p n) # queue_packets mem b t (ring_adv b t p n) ns"

definition tx_packets :: "memory \<Rightarrow> usb_in_endpoint_state \<Rightarrow> nat list \<Rightarrow> u32 list list" where
  "tx_packets mem isp ns =
     (if txqueued isp
      then queue_packets mem (q_buffer (txqueue isp)) (q_top (txqueue isp))
             (q_rdptr (txqueue isp)) ns
      else linear_packets mem (txbuf isp) ns)"


subsection \<open>Sample objects\<close>

text \<open>A store that holds at each address the address itself, a kernel and two queues.\<close>

definition example_queue :: queue where
  "example_queue =
     \<lparr>q_waiting = [3, 5], q_counter = 7, q_buffer = 100, q_top = 116, q_wrptr = 114,
      q_rdptr = 114\<rparr>"

definition example_memory :: memory where
  "example_memory a = of_nat a"

definition example_kernel :: kernel where
  "example_kernel = \<lparr>rlist = [], rdymsg = (\<lambda>tp. 1)\<rparr>"

definition example_out_queue :: queue where
  "example_out_queue =
     \<lparr>q_waiting = [], q_counter = 0, q_buffer = 0, q_top = 16, q_wrptr = 0, q_rdptr = 14\<rparr>"


definition example_in_state :: usb_in_endpoint_state where
  "example_in_state =
     \<lparr>txqueued = False, txsize = 130, txcnt = 0, txbuf = 0, txqueue = example_out_queue\<rparr>"

definition example_tx_state :: tx_state where
  "example_tx_state =
     \<lparr>ram = example_memory, kern = example_kernel, in_state = example_in_state,
      txfifo = [], DTXFSTS_reads = 0, pushed = []\<rparr>"

subsection \<open>Predicates used in the proofs\<close>

text \<open>The state of a fill: a queue, where the transfer uses one, is well formed.\<close>

definition tx_ok :: "tx_state \<Rightarrow> bool" where
  "tx_ok s = (txqueued (in_state s) \<longrightarrow> oq_ok (txqueue (in_state s)))"

text \<open>
  What holds of a result \<open>y\<close> of the fill engine entered in state \<open>s\<close>; \<open>new\<close> are the
  packets it has written.
\<close>

definition tx_post :: "16 word \<Rightarrow> tx_state \<Rightarrow> bool \<times> tx_state \<Rightarrow> bool" where
  "tx_post m s y =
    (txsize (in_state (snd y)) = txsize (in_state s) \<and>
     (fst y \<longleftrightarrow> txsize (in_state (snd y)) \<le> txcnt (in_state (snd y))) \<and>
     (txcnt (in_state s) \<le> txsize (in_state s) \<longrightarrow>
        txcnt (in_state (snd y)) \<le> txsize (in_state (snd y))) \<and>
     (\<exists>new. pushed (snd y) = pushed s @ new \<and>
        txcnt (in_state (snd y)) = txcnt (in_state s) + sum_list (map fst new) \<and>
        (txsize (in_state s) \<le> txcnt (in_state s) \<longrightarrow> new = []) \<and>
        (\<forall>i < length new.
           snd (new ! i) = txcnt (in_state s) + sum_list (map fst (take (Suc i) new)) \<and>
           fst (new ! i) \<le> ucast m \<and>
           (fst (new ! i) < ucast m \<longrightarrow>
              snd (new ! i) = txsize (in_state s) \<and> Suc i = length new))))"

section \<open>Properties\<close>


subsection \<open>The allocator\<close>

lemma running_offsets_length: "length (running_offsets base ss) = length ss"
  by (induction ss arbitrary: base) auto

lemma running_offsets_ge: "x \<in> set (running_offsets base ss) \<Longrightarrow> base \<le> x"
  by (induction ss arbitrary: base) fastforce+

lemma running_offsets_sorted: "sorted (running_offsets base ss)"
  by (induction ss arbitrary: base) (auto dest: running_offsets_ge)

lemma running_offsets_gt:
  "0 < s \<Longrightarrow> x \<in> set (running_offsets (base + s) ss) \<Longrightarrow> base < x"
  by (drule running_offsets_ge) simp

lemma running_offsets_strict:
  "\<forall>s \<in> set ss. 0 < s \<Longrightarrow> sorted_wrt (<) (running_offsets base ss)"
  by (induction ss arbitrary: base) (auto dest: running_offsets_gt)

lemma running_offsets_nth:
  "i < length ss \<Longrightarrow> running_offsets base ss ! i = base + sum_list (take i ss)"
  by (induction ss arbitrary: base i) (auto simp: nth_Cons' take_Cons')

lemma running_offsets_fit:
  "i < length ss \<Longrightarrow> running_offsets base ss ! i + ss ! i \<le> base + sum_list ss"
proof -
  assume i: "i < length ss"
  have "sum_list (take (Suc i) ss) \<le> sum_list (take (Suc i) ss) + sum_list (drop (Suc i) ss)"
    by simp
  also have "\<dots> = sum_list ss"
    by (metis append_take_drop_id sum_list_append)
  finally have "sum_list (take i ss) + ss ! i \<le> sum_list ss"
    using i by (simp add: take_Suc_conv_app_nth)
  then show ?thesis using i by (simp add: running_offsets_nth)
qed

lemma sorted_wrt_unat_less: "sorted_wrt (<) (map unat (xs :: u32 list)) = sorted_wrt (<) xs"
  by (simp add: sorted_wrt_map word_less_nat_alt [symmetric])

lemma sorted_unat_le: "sorted (map unat (xs :: u32 list)) = sorted xs"
  by (simp add: sorted_wrt_map word_le_nat_alt [symmetric])

lemma otg_ram_alloc_fits:
  assumes "unat (pmnext usbp) + unat sz \<le> unat (STM32_OTG_FIFO_MEM_SIZE cfg)"
  shows "otg_ram_alloc cfg usbp sz = (usbp\<lparr>pmnext := pmnext usbp + sz\<rparr>, Inr (pmnext usbp))"
    and "unat (pmnext usbp + sz) = unat (pmnext usbp) + unat sz"
proof -
  have lt: "unat (pmnext usbp) + unat sz < 2 ^ 32"
    using assms unsigned_less [of "STM32_OTG_FIFO_MEM_SIZE cfg", where 'a = nat] by simp
  then show u: "unat (pmnext usbp + sz) = unat (pmnext usbp) + unat sz"
    by (simp add: unat_word_ariths)
  then have "pmnext usbp + sz \<le> STM32_OTG_FIFO_MEM_SIZE cfg"
    using assms by (simp add: word_le_nat_alt)
  then show "otg_ram_alloc cfg usbp sz = (usbp\<lparr>pmnext := pmnext usbp + sz\<rparr>, Inr (pmnext usbp))"
    by (simp add: otg_ram_alloc_def)
qed

lemma otg_ram_alloc_seq_fits:
  "unat (pmnext usbp) + sum_list (map unat szs) \<le> unat (STM32_OTG_FIFO_MEM_SIZE cfg) \<Longrightarrow>
   \<exists>offs. otg_ram_alloc_seq cfg usbp szs =
             (usbp\<lparr>pmnext := pmnext usbp + sum_list szs\<rparr>, Inr offs) \<and>
          map unat offs = running_offsets (unat (pmnext usbp)) (map unat szs) \<and>
          unat (pmnext usbp + sum_list szs) = unat (pmnext usbp) + sum_list (map unat szs)"
proof (induction szs arbitrary: usbp)
  case Nil
  then show ?case by simp
next
  case (Cons sz szs)
  let ?u = "usbp\<lparr>pmnext := pmnext usbp + sz\<rparr>"
  have fit: "unat (pmnext usbp) + unat sz \<le> unat (STM32_OTG_FIFO_MEM_SIZE cfg)"
    using Cons.prems by simp
  note a = otg_ram_alloc_fits [OF fit]
  have "unat (pmnext ?u) + sum_list (map unat szs) \<le> unat (STM32_OTG_FIFO_MEM_SIZE cfg)"
    using Cons.prems a(2) by simp
  from Cons.IH [OF this] obtain offs where
    s: "otg_ram_alloc_seq cfg ?u szs = (?u\<lparr>pmnext := pmnext ?u + sum_list szs\<rparr>, Inr offs)"
    and m: "map unat offs = running_offsets (unat (pmnext ?u)) (map unat szs)"
    and n: "unat (pmnext ?u + sum_list szs) = unat (pmnext ?u) + sum_list (map unat szs)"
    by blast
  show ?case
    using a s m n by (simp add: add.assoc)
qed

text \<open>
  Claim C4, as amended. Within one activation cycle, that is from the state
  \<^verbatim>\<open>otg_ram_reset\<close> leaves, a sequence of allocations whose sizes fit between the reset
  base and the FIFO capacity all return; each returns the value of \<open>pmnext\<close> before its
  own advance (the running sums from the base). The offsets are ascending, strictly so
  when every requested size is positive; each offset plus its size, and \<open>pmnext\<close> at the
  end, stay within the capacity.
\<close>

theorem otg_ram_alloc_monotone:
  assumes fit: "unat (STM32_USB_OTG1_RX_FIFO_SIZE cfg div 4) + sum_list (map unat szs)
                  \<le> unat (STM32_OTG_FIFO_MEM_SIZE cfg)"
  shows "\<exists>usbp' offs.
           otg_ram_alloc_seq cfg (otg_ram_reset cfg usbp) szs = (usbp', Inr offs) \<and>
           map unat offs =
             running_offsets (unat (STM32_USB_OTG1_RX_FIFO_SIZE cfg div 4)) (map unat szs) \<and>
           sorted offs \<and>
           ((\<forall>sz \<in> set szs. 0 < sz) \<longrightarrow> sorted_wrt (<) offs) \<and>
           (\<forall>i < length szs.
              unat (offs ! i) + unat (szs ! i) \<le> unat (STM32_OTG_FIFO_MEM_SIZE cfg)) \<and>
           unat (pmnext usbp') =
             unat (STM32_USB_OTG1_RX_FIFO_SIZE cfg div 4) + sum_list (map unat szs) \<and>
           pmnext usbp' \<le> STM32_OTG_FIFO_MEM_SIZE cfg"
proof -
  let ?u = "otg_ram_reset cfg usbp"
  let ?b = "unat (STM32_USB_OTG1_RX_FIFO_SIZE cfg div 4)"
  let ?ss = "map unat szs"
  have b: "pmnext ?u = STM32_USB_OTG1_RX_FIFO_SIZE cfg div 4"
    by (simp add: otg_ram_reset_def)
  have "unat (pmnext ?u) + sum_list ?ss \<le> unat (STM32_OTG_FIFO_MEM_SIZE cfg)"
    using fit b by simp
  from otg_ram_alloc_seq_fits [OF this] obtain offs where
    run: "otg_ram_alloc_seq cfg ?u szs = (?u\<lparr>pmnext := pmnext ?u + sum_list szs\<rparr>, Inr offs)"
    and offs: "map unat offs = running_offsets ?b ?ss"
    and tot: "unat (pmnext ?u + sum_list szs) = ?b + sum_list ?ss"
    unfolding b by blast
  have len: "length offs = length szs"
    using offs running_offsets_length [of ?b ?ss] by (metis length_map)
  have s1: "sorted offs"
    using running_offsets_sorted [of ?b ?ss] offs sorted_unat_le [of offs] by simp
  have s2: "sorted_wrt (<) offs" if "\<forall>sz \<in> set szs. 0 < sz"
  proof -
    have "\<forall>s \<in> set ?ss. 0 < s"
      using that by (auto simp: word_less_nat_alt)
    from running_offsets_strict [OF this, of ?b] show ?thesis
      using offs sorted_wrt_unat_less [of offs] by simp
  qed
  have s3: "unat (offs ! i) + unat (szs ! i) \<le> unat (STM32_OTG_FIFO_MEM_SIZE cfg)"
    if "i < length szs" for i
  proof -
    have "unat (offs ! i) = running_offsets ?b ?ss ! i"
      using that len offs by (metis nth_map)
    moreover have "running_offsets ?b ?ss ! i + ?ss ! i \<le> ?b + sum_list ?ss"
      using that by (intro running_offsets_fit) simp
    ultimately show ?thesis using that fit by simp
  qed
  have s4: "pmnext ?u + sum_list szs \<le> STM32_OTG_FIFO_MEM_SIZE cfg"
    using tot fit by (simp add: word_le_nat_alt)
  show ?thesis
    using run offs s1 s2 s3 s4 tot by auto
qed

theorem otg_ram_alloc_monotone_witness:
  "otg_ram_alloc_seq example_config (otg_ram_reset example_config \<lparr>pmnext = 0\<rparr>) [16, 64, 16]
     = (\<lparr>pmnext = 128\<rparr>, Inr [32, 48, 112]) \<and>
   sorted_wrt (<) [32, 48, 112 :: u32] \<and>
   (128 :: u32) \<le> STM32_OTG_FIFO_MEM_SIZE example_config"
  using otg_ram_alloc_monotone [of example_config "[16, 64, 16]" "\<lparr>pmnext = 0\<rparr>"]
  by (simp add: example_config_def otg_ram_reset_def otg_ram_alloc_def)

text \<open>
  Claim C4 as stated fails: a request of zero words (an endpoint whose maximum packet
  size is under four bytes) is given the offset of the request after it, and with
  assertions disabled a request beyond the capacity returns and leaves \<open>pmnext\<close> above
  the capacity.
\<close>

theorem otg_ram_alloc_monotone_counterexample:
  "otg_ram_alloc_seq example_config (otg_ram_reset example_config \<lparr>pmnext = 0\<rparr>) [0, 400]
     = (\<lparr>pmnext = 432\<rparr>, Inr [32, 32]) \<and>
   \<not> sorted_wrt (<) [32, 32 :: u32] \<and>
   \<not> (432 :: u32) \<le> STM32_OTG_FIFO_MEM_SIZE example_config"
  by (simp add: example_config_def otg_ram_reset_def otg_ram_alloc_def)

text \<open>
  Claim C5, as amended. From a freshly reset allocator, requests of 16 and then 32 words
  return the reset base \<^verbatim>\<open>STM32_USB_OTG1_RX_FIFO_SIZE / 4\<close> and the base plus 16, and
  \<open>pmnext\<close> is the base plus 48 after both (where assertions are enabled, provided they
  hold).
\<close>

theorem otg_ram_alloc_two_endpoints:
  assumes "CH_DBG_ENABLE_ASSERTS cfg \<Longrightarrow>
             STM32_USB_OTG1_RX_FIFO_SIZE cfg div 4 + 16 \<le> STM32_OTG_FIFO_MEM_SIZE cfg \<and>
             STM32_USB_OTG1_RX_FIFO_SIZE cfg div 4 + 48 \<le> STM32_OTG_FIFO_MEM_SIZE cfg"
  shows "otg_ram_alloc_seq cfg (otg_ram_reset cfg usbp) [16, 32] =
           (usbp\<lparr>pmnext := STM32_USB_OTG1_RX_FIFO_SIZE cfg div 4 + 48\<rparr>,
            Inr [STM32_USB_OTG1_RX_FIFO_SIZE cfg div 4,
                 STM32_USB_OTG1_RX_FIFO_SIZE cfg div 4 + 16])"
  using assms by (auto simp: otg_ram_reset_def otg_ram_alloc_def Let_def add.assoc)

theorem otg_ram_alloc_two_endpoints_witness:
  "otg_ram_alloc_seq example_config (otg_ram_reset example_config \<lparr>pmnext = 7\<rparr>) [16, 32] =
     (\<lparr>pmnext = 80\<rparr>, Inr [32, 48])"
  using otg_ram_alloc_two_endpoints [of example_config "\<lparr>pmnext = 7\<rparr>"]
  by (simp add: example_config_def)

text \<open>
  Claim C5 as stated fails wherever the receive FIFO has a size: with 128 bytes the
  offsets are 32 and 48 and \<open>pmnext\<close> ends at 80, not 0, 16 and 48.
\<close>

theorem otg_ram_alloc_two_endpoints_counterexample:
  "otg_ram_alloc_seq example_config (otg_ram_reset example_config \<lparr>pmnext = 0\<rparr>) [16, 32]
     \<noteq> (\<lparr>pmnext = 48\<rparr>, Inr [0, 16])"
  by (simp add: example_config_def otg_ram_reset_def otg_ram_alloc_def)

text \<open>
  Claim C10. \<^verbatim>\<open>otg_ram_alloc\<close> advances \<open>pmnext\<close> before the capacity is checked: when
  the advanced value exceeds the capacity, the state is left advanced past the capacity
  in every build; without assertions the offset before the advance is returned all the
  same, and with assertions the system halts with the state as advanced.
\<close>

theorem otg_ram_alloc_overflow:
  assumes "STM32_OTG_FIFO_MEM_SIZE cfg < pmnext usbp + sz"
  shows "otg_ram_alloc cfg usbp sz =
           (usbp\<lparr>pmnext := pmnext usbp + sz\<rparr>,
            if CH_DBG_ENABLE_ASSERTS cfg then Inl DbgPanic else Inr (pmnext usbp)) \<and>
         STM32_OTG_FIFO_MEM_SIZE cfg < pmnext (fst (otg_ram_alloc cfg usbp sz))"
  using assms by (simp add: otg_ram_alloc_def Let_def not_le)

theorem otg_ram_alloc_overflow_witness:
  "otg_ram_alloc example_config \<lparr>pmnext = 300\<rparr> 100 = (\<lparr>pmnext = 400\<rparr>, Inr 300) \<and>
   otg_ram_alloc (example_config\<lparr>CH_DBG_ENABLE_ASSERTS := True\<rparr>) \<lparr>pmnext = 300\<rparr> 100
     = (\<lparr>pmnext = 400\<rparr>, Inl DbgPanic)"
  using otg_ram_alloc_overflow [of example_config "\<lparr>pmnext = 300\<rparr>" 100]
    otg_ram_alloc_overflow [of "example_config\<lparr>CH_DBG_ENABLE_ASSERTS := True\<rparr>" "\<lparr>pmnext = 300\<rparr>" 100]
  by (simp add: example_config_def)


subsection \<open>Circular buffers and words\<close>

lemma ring_next_in: "b \<le> p \<Longrightarrow> p < t \<Longrightarrow> b \<le> ring_next b t p \<and> ring_next b t p < t"
  by (simp add: ring_next_def)

lemma ring_adv_in: "b \<le> p \<Longrightarrow> p < t \<Longrightarrow> b \<le> ring_adv b t p n \<and> ring_adv b t p n < t"
  by (induction n arbitrary: p) (simp_all add: ring_next_in)

lemma ring_adv_add: "ring_adv b t p (m + n) = ring_adv b t (ring_adv b t p m) n"
  by (induction m arbitrary: p) simp_all

lemma ring_bytes_add:
  "ring_bytes mem b t p (m + n) = ring_bytes mem b t p m @ ring_bytes mem b t (ring_adv b t p m) n"
  by (induction m arbitrary: p) simp_all

lemma length_ring_bytes [simp]: "length (ring_bytes mem b t p n) = n"
  by (induction n arbitrary: p) simp_all

lemma pack_words_append4:
  "length xs = 4 \<Longrightarrow> pack_words (xs @ ys) = le_word xs # pack_words ys"
  by (cases xs) (simp_all)

lemma pack_words_short:
  "xs \<noteq> [] \<Longrightarrow> length xs \<le> 4 \<Longrightarrow> pack_words xs = [le_word xs]"
  by (cases xs) simp_all

lemma pack_words_append:
  "length xs mod 4 = 0 \<Longrightarrow> pack_words (xs @ ys) = pack_words xs @ pack_words ys"
proof (induction xs rule: pack_words.induct)
  case 1
  then show ?case by simp
next
  case (2 x xs)
  then have len: "3 \<le> length xs" by (cases "length xs < 3") (auto simp: mod_Suc split: if_splits)
  then have "length (drop 3 xs) mod 4 = 0"
    using 2(2) by (simp add: mod_Suc split: if_splits) presburger
  with 2 len show ?case by simp
qed

lemma le_word4: "le_word [a, b, c, d] =
   ucast a OR push_bit 8 (ucast b) OR push_bit 16 (ucast c) OR push_bit 24 (ucast d)"
  by (simp add: ac_simps)

lemma ring_bytes4:
  "p + 4 \<le> t \<Longrightarrow> ring_bytes mem b t p 4 = [mem p, mem (p + 1), mem (p + 2), mem (p + 3)]"
  by (simp add: eval_nat_numeral ring_next_def)

lemma ring_adv4:
  "p + 4 \<le> t \<Longrightarrow> ring_adv b t p 4 = (if p + 4 = t then b else p + 4)"
  by (simp add: eval_nat_numeral ring_next_def)

lemma otg_do_push_ring:
  "p + 4 * k \<le> t \<Longrightarrow>
   otg_do_push mem fifop p k = (fifop @ pack_words (ring_bytes mem b t p (4 * k)), p + 4 * k) \<and>
   ring_adv b t p (4 * k) = (if 0 < k \<and> p + 4 * k = t then b else p + 4 * k)"
proof (induction k arbitrary: p fifop)
  case 0
  then show ?case by simp
next
  case (Suc k)
  have p4: "p + 4 \<le> t" using Suc.prems by simp
  have w: "pack_words (ring_bytes mem b t p 4) = [load32 mem p]"
    using p4 by (simp add: ring_bytes4 load32_def ac_simps)
  show ?case
  proof (cases "p + 4 = t")
    case True
    then have k0: "k = 0" using Suc.prems by simp
    have adv: "ring_adv b t p 4 = b" using ring_adv4 [OF p4, where b = b] True by simp
    have "otg_do_push mem fifop p (Suc 0) = (fifop @ [load32 mem p], p + 4)" by simp
    then show ?thesis unfolding k0 using True w adv by simp
  next
    case False
    then have adv: "ring_adv b t p 4 = p + 4" using ring_adv4 [OF p4, where b = b] by simp
    have "(p + 4) + 4 * k \<le> t" using Suc.prems by simp
    note ih = Suc.IH [OF this, of "fifop @ [load32 mem p]"]
    have split: "4 * Suc k = 4 + 4 * k" by simp
    have rb: "ring_bytes mem b t p (4 * Suc k) =
                ring_bytes mem b t p 4 @ ring_bytes mem b t (p + 4) (4 * k)"
      unfolding split ring_bytes_add adv ..
    have pw: "pack_words (ring_bytes mem b t p (4 * Suc k)) =
                load32 mem p # pack_words (ring_bytes mem b t (p + 4) (4 * k))"
      unfolding rb using w by (simp add: pack_words_append)
    have ra: "ring_adv b t p (4 * Suc k) = ring_adv b t (p + 4) (4 * k)"
      unfolding split ring_adv_add adv ..
    show ?thesis
      using ih pw ra False by (auto simp: add.assoc)
  qed
qed


declare wq_bytes.simps [simp del] rq_bytes.simps [simp del] rb_loop.simps [simp del]

lemma wq_bytes_eq:
  "wq_bytes mem oqp ntogo w i =
     (oqp\<lparr>q_rdptr := ring_adv (q_buffer oqp) (q_top oqp) (q_rdptr oqp) (min ntogo (4 - i))\<rparr>,
      ntogo - min ntogo (4 - i),
      w OR push_bit (i * 8)
        (le_word (ring_bytes mem (q_buffer oqp) (q_top oqp) (q_rdptr oqp) (min ntogo (4 - i)))))"
proof (induction mem oqp ntogo w i rule: wq_bytes.induct)
  case (1 mem oqp ntogo w i)
  show ?case
  proof (cases "ntogo > 0 \<and> i < 4")
    case False
    then have "min ntogo (4 - i) = 0" by auto
    show ?thesis
      apply (subst wq_bytes.simps)
      apply (simp only: False if_False \<open>min ntogo (4 - i) = 0\<close>)
      apply simp
      done
  next
    case True
    let ?oqp' = "if q_rdptr oqp + 1 \<ge> q_top oqp then oqp\<lparr>q_rdptr := q_buffer oqp\<rparr>
                 else oqp\<lparr>q_rdptr := q_rdptr oqp + 1\<rparr>"
    have m: "min ntogo (4 - i) = Suc (min (ntogo - 1) (4 - (i + 1)))"
      using True by auto
    have q: "q_buffer ?oqp' = q_buffer oqp" "q_top ?oqp' = q_top oqp"
      "q_rdptr ?oqp' = ring_next (q_buffer oqp) (q_top oqp) (q_rdptr oqp)"
      by (simp_all add: ring_next_def)
    have u: "?oqp'\<lparr>q_rdptr := x\<rparr> = oqp\<lparr>q_rdptr := x\<rparr>" for x
      by simp
    have sh: "push_bit (i * 8) (push_bit 8 x) = push_bit ((i + 1) * 8) x" for x :: u32
      by (simp add: ac_simps)
    show ?thesis
      apply (subst wq_bytes.simps)
      apply (simp only: True if_True "1.IH" [OF True] q u)
      apply (simp only: m ring_adv.simps ring_bytes.simps le_word.simps push_bit_or sh)
      apply (simp add: ac_simps)
      done
  qed
qed

lemma wq_tail_ok:
  assumes "0 < ntogo"
  shows "wq_tail mem oqp fifop ntogo =
     Again (oqp\<lparr>q_rdptr := ring_adv (q_buffer oqp) (q_top oqp) (q_rdptr oqp) (min ntogo 4)\<rparr>,
            fifop @ [le_word (ring_bytes mem (q_buffer oqp) (q_top oqp) (q_rdptr oqp) (min ntogo 4))],
            ntogo - min ntogo 4)"
  using assms by (simp add: wq_tail_def wq_bytes_eq)

lemma pack_words_ring:
  "0 < n \<Longrightarrow>
   pack_words (ring_bytes mem b t p n) =
     le_word (ring_bytes mem b t p (min n 4)) #
       pack_words (ring_bytes mem b t (ring_adv b t p (min n 4)) (n - min n 4))"
proof -
  assume n: "0 < n"
  have split: "n = min n 4 + (n - min n 4)" by simp
  define k where "k = min n 4"
  have k: "0 < k" "k \<le> 4" using n by (simp_all add: k_def)
  have "ring_bytes mem b t p n =
          ring_bytes mem b t p k @ ring_bytes mem b t (ring_adv b t p k) (n - k)"
    using ring_bytes_add [of mem b t p k "n - k"] by (simp add: k_def)
  moreover have "pack_words (ring_bytes mem b t p k @ ys) =
          le_word (ring_bytes mem b t p k) # pack_words ys" if "k = 4 \<or> ys = []" for ys
  proof (cases "k = 4")
    case True
    then show ?thesis by (simp add: pack_words_append4)
  next
    case False
    then have "ys = []" using that by simp
    moreover have "ring_bytes mem b t p k \<noteq> []" using k by (cases k) simp_all
    ultimately show ?thesis using k by (simp add: pack_words_short)
  qed
  moreover have "k = 4 \<or> ring_bytes mem b t (ring_adv b t p k) (n - k) = []"
    by (cases "n \<le> 4") (simp_all add: k_def min_def)
  ultimately show ?thesis unfolding k_def by simp
qed

lemma ptrdiff_words_le: "q \<le> p \<Longrightarrow> ptrdiff_words p q = (p - q) div 4"
  by (simp add: ptrdiff_words_def)

lemma wq_body_eq:
  assumes "0 < ntogo div 4" "q_rdptr oqp \<le> q_top oqp"
  shows "wq_body mem (oqp, fifop, ntogo) =
     (let streak = min (ntogo div 4) ((q_top oqp - q_rdptr oqp) div 4);
          r = otg_do_push mem fifop (q_rdptr oqp) streak
      in if q_top oqp \<le> snd r
         then Again (oqp\<lparr>q_rdptr := q_buffer oqp\<rparr>, fst r, ntogo - streak * 4)
         else wq_tail mem (oqp\<lparr>q_rdptr := snd r\<rparr>) (fst r) (ntogo - streak * 4))"
  using assms
  by (simp add: wq_body_def Let_def ptrdiff_words_le min_def split: prod.splits)

lemma wq_loop_ok:
  assumes "q_buffer oqp \<le> q_rdptr oqp" "q_rdptr oqp < q_top oqp"
  shows "wq_loop mem (oqp, fifop, ntogo) =
     Some (oqp\<lparr>q_rdptr := ring_adv (q_buffer oqp) (q_top oqp) (q_rdptr oqp) ntogo\<rparr>,
           fifop @ pack_words (ring_bytes mem (q_buffer oqp) (q_top oqp) (q_rdptr oqp) ntogo))"
  using assms
proof (induction ntogo arbitrary: oqp fifop rule: less_induct)
  case (less ntogo)
  let ?b = "q_buffer oqp" and ?t = "q_top oqp" and ?p = "q_rdptr oqp"
  show ?case
  proof (cases "ntogo = 0")
    case True
    then show ?thesis by (subst wq_loop.simps) simp
  next
    case False
    then have pos: "0 < ntogo" by simp
    define nw where "nw = ntogo div 4"
    define streak where "streak = min nw ((?t - ?p) div 4)"
    define ntogo1 where "ntogo1 = ntogo - streak * 4"
    have fit: "?p + 4 * streak \<le> ?t"
      using less.prems by (auto simp: streak_def nw_def)
    have le: "4 * streak \<le> ntogo"
      by (auto simp: streak_def nw_def)
    note push = otg_do_push_ring [OF fit, of mem fifop ?b]
    define fifop1 where "fifop1 = fifop @ pack_words (ring_bytes mem ?b ?t ?p (4 * streak))"
    have split: "ntogo = 4 * streak + ntogo1" using le by (simp add: ntogo1_def)
    have rb: "ring_bytes mem ?b ?t ?p ntogo =
        ring_bytes mem ?b ?t ?p (4 * streak) @
        ring_bytes mem ?b ?t (ring_adv ?b ?t ?p (4 * streak)) ntogo1"
      by (subst split) (rule ring_bytes_add)
    have pw: "fifop @ pack_words (ring_bytes mem ?b ?t ?p ntogo) =
        fifop1 @ pack_words (ring_bytes mem ?b ?t (ring_adv ?b ?t ?p (4 * streak)) ntogo1)"
      unfolding rb fifop1_def by (simp add: pack_words_append)
    have ra: "ring_adv ?b ?t ?p ntogo = ring_adv ?b ?t (ring_adv ?b ?t ?p (4 * streak)) ntogo1"
      by (subst split) (rule ring_adv_add)
    have tail: "(case wq_tail mem q f n of Break r \<Rightarrow> Some r | Again s' \<Rightarrow> wq_loop mem s') =
        Some (q\<lparr>q_rdptr := ring_adv (q_buffer q) (q_top q) (q_rdptr q) n\<rparr>,
              f @ pack_words (ring_bytes mem (q_buffer q) (q_top q) (q_rdptr q) n))"
      if "n \<le> ntogo" "q_buffer q \<le> q_rdptr q" "q_rdptr q < q_top q" for q f n
    proof (cases "n = 0")
      case True
      then show ?thesis by (simp add: wq_tail_def)
    next
      case False
      then have n: "0 < n" by simp
      let ?k = "min n 4"
      let ?q' = "q\<lparr>q_rdptr := ring_adv (q_buffer q) (q_top q) (q_rdptr q) ?k\<rparr>"
      have lt: "n - ?k < ntogo" using n that(1) by auto
      have in': "q_buffer ?q' \<le> q_rdptr ?q'" "q_rdptr ?q' < q_top ?q'"
        using ring_adv_in [OF that(2,3), of ?k] by simp_all
      have "n = ?k + (n - ?k)" by simp
      then have adv: "ring_adv (q_buffer q) (q_top q) (q_rdptr q) n =
          ring_adv (q_buffer q) (q_top q) (ring_adv (q_buffer q) (q_top q) (q_rdptr q) ?k) (n - ?k)"
        by (metis ring_adv_add)
      show ?thesis
        unfolding wq_tail_ok [OF n] flow.case less.IH [OF lt in']
        using pack_words_ring [OF n, of mem "q_buffer q" "q_top q" "q_rdptr q"] adv
        by simp
    qed
    show ?thesis
    proof (cases "0 < nw")
      case nwz: False
      have "wq_body mem (oqp, fifop, ntogo) = wq_tail mem oqp fifop ntogo"
        using nwz by (simp add: wq_body_def nw_def)
      then show ?thesis
        using pos tail [of ntogo oqp fifop] less.prems by (subst wq_loop.simps) simp
    next
      case nwp: True
      have pt: "?p \<le> ?t" using less.prems by simp
      note body_eq = wq_body_eq [OF nwp [unfolded nw_def] pt, of mem fifop,
          folded nw_def, folded streak_def]
      show ?thesis
      proof (cases "?p + 4 * streak \<ge> ?t")
        case True
        then have eq: "?p + 4 * streak = ?t" using fit by simp
        then have sp: "0 < streak" using less.prems by (cases streak) simp_all
        have body: "wq_body mem (oqp, fifop, ntogo) = Again (oqp\<lparr>q_rdptr := ?b\<rparr>, fifop1, ntogo1)"
          unfolding body_eq using push eq
          by (simp add: ntogo1_def fifop1_def)
        have adv: "ring_adv ?b ?t ?p (4 * streak) = ?b"
          using push eq sp by simp
        have lt: "ntogo1 < ntogo" using sp le by (simp add: ntogo1_def)
        have "wq_loop mem (oqp\<lparr>q_rdptr := ?b\<rparr>, fifop1, ntogo1) =
            Some (oqp\<lparr>q_rdptr := ring_adv ?b ?t ?b ntogo1\<rparr>,
                  fifop1 @ pack_words (ring_bytes mem ?b ?t ?b ntogo1))"
          using less.IH [OF lt, of "oqp\<lparr>q_rdptr := ?b\<rparr>" fifop1] less.prems by simp
        then show ?thesis
          using pos body by (subst wq_loop.simps) (simp add: pw ra adv)
      next
        case False
        then have adv: "ring_adv ?b ?t ?p (4 * streak) = ?p + 4 * streak"
          using push by simp
        let ?q1 = "oqp\<lparr>q_rdptr := ?p + 4 * streak\<rparr>"
        have body: "wq_body mem (oqp, fifop, ntogo) = wq_tail mem ?q1 fifop1 ntogo1"
          unfolding body_eq using push False
          by (simp add: ntogo1_def fifop1_def)
        have "ntogo1 \<le> ntogo" by (simp add: ntogo1_def)
        from tail [OF this, of ?q1 fifop1] have
          "(case wq_tail mem ?q1 fifop1 ntogo1 of Break r \<Rightarrow> Some r | Again s' \<Rightarrow> wq_loop mem s') =
             Some (oqp\<lparr>q_rdptr := ring_adv ?b ?t (?p + 4 * streak) ntogo1\<rparr>,
                   fifop1 @ pack_words (ring_bytes mem ?b ?t (?p + 4 * streak) ntogo1))"
          using less.prems False by simp
        then show ?thesis
          using pos body by (subst wq_loop.simps) (simp add: pw ra adv)
      qed
    qed
  qed
qed

lemma ptrdiff_words_self: "ptrdiff_words p p = 0"
  by (simp add: ptrdiff_words_def)

lemma rq_streak_zero: "rq_streak iqp nw = 0"
  by (simp add: rq_streak_def ptrdiff_words_self)




lemma word_bytes_nth:
  "i < 4 \<Longrightarrow> word_bytes w ! i = ucast (drop_bit (i * 8) w)"
  by (auto simp: word_bytes_def nth_Cons' less_Suc_eq eval_nat_numeral)

lemma length_word_bytes [simp]: "length (word_bytes w) = 4"
  by (simp add: word_bytes_def)



lemma ring_store_append:
  "ring_store mem b t p (xs @ ys) =
     ring_store (ring_store mem b t p xs) b t (ring_adv b t p (length xs)) ys"
  by (induction xs arbitrary: mem p) simp_all

lemma rq_bytes_eq:
  "i \<le> 4 \<Longrightarrow>
   rq_bytes mem iqp ntogo w i =
     (ring_store mem (q_buffer iqp) (q_top iqp) (q_wrptr iqp)
        (take (min ntogo (4 - i)) (drop i (word_bytes w))),
      iqp\<lparr>q_wrptr := ring_adv (q_buffer iqp) (q_top iqp) (q_wrptr iqp) (min ntogo (4 - i))\<rparr>,
      ntogo - min ntogo (4 - i))"
proof (induction mem iqp ntogo w i rule: rq_bytes.induct)
  case (1 mem iqp ntogo w i)
  show ?case
  proof (cases "ntogo > 0 \<and> i < 4")
    case False
    then have "min ntogo (4 - i) = 0" by auto
    show ?thesis
      apply (subst rq_bytes.simps)
      apply (simp only: False if_False \<open>min ntogo (4 - i) = 0\<close>)
      apply simp
      done
  next
    case True
    let ?iqp' = "if q_wrptr iqp + 1 \<ge> q_top iqp then iqp\<lparr>q_wrptr := q_buffer iqp\<rparr>
                 else iqp\<lparr>q_wrptr := q_wrptr iqp + 1\<rparr>"
    have m: "min ntogo (4 - i) = Suc (min (ntogo - 1) (4 - (i + 1)))"
      using True by auto
    have q: "q_buffer ?iqp' = q_buffer iqp" "q_top ?iqp' = q_top iqp"
      "q_wrptr ?iqp' = ring_next (q_buffer iqp) (q_top iqp) (q_wrptr iqp)"
      by (simp_all add: ring_next_def)
    have u: "?iqp'\<lparr>q_wrptr := x\<rparr> = iqp\<lparr>q_wrptr := x\<rparr>" for x
      by simp
    have i1: "i + 1 \<le> 4" using True by simp
    have d: "drop i (word_bytes w) = ucast (drop_bit (i * 8) w) # drop (i + 1) (word_bytes w)"
      using True Cons_nth_drop_Suc [of i "word_bytes w"] by (simp add: word_bytes_nth)
    show ?thesis
      apply (subst rq_bytes.simps)
      apply (simp only: True if_True "1.IH" [OF True i1] q u)
      apply (simp only: m d take_Suc_Cons ring_adv.simps ring_store.simps)
      apply simp
      done
  qed
qed

lemma rq_tail_ok:
  assumes "0 < ntogo"
  shows "rq_tail mem iqp fifop ntogo =
     Again (ring_store mem (q_buffer iqp) (q_top iqp) (q_wrptr iqp)
              (take (min ntogo 4) (word_bytes (fst (fifo_read fifop)))),
            iqp\<lparr>q_wrptr := ring_adv (q_buffer iqp) (q_top iqp) (q_wrptr iqp) (min ntogo 4)\<rparr>,
            snd (fifo_read fifop),
            ntogo - min ntogo 4)"
  using assms by (simp add: rq_tail_def rq_bytes_eq split: prod.splits)

lemma rq_body_eq:
  assumes "q_wrptr iqp < q_top iqp"
  shows "rq_body (mem, iqp, fifop, ntogo) = rq_tail mem iqp fifop ntogo"
  using assms by (simp add: rq_body_def rq_streak_zero Let_def)

lemma rq_loop_ok:
  assumes "q_buffer iqp \<le> q_wrptr iqp" "q_wrptr iqp < q_top iqp"
  shows "rq_loop (mem, iqp, fifop, ntogo) =
     Some (ring_store mem (q_buffer iqp) (q_top iqp) (q_wrptr iqp)
             (take ntogo (concat (map word_bytes (fst (fifo_take ((ntogo + 3) div 4) fifop))))),
           iqp\<lparr>q_wrptr := ring_adv (q_buffer iqp) (q_top iqp) (q_wrptr iqp) ntogo\<rparr>,
           snd (fifo_take ((ntogo + 3) div 4) fifop))"
  using assms
proof (induction ntogo arbitrary: mem iqp fifop rule: less_induct)
  case (less ntogo)
  let ?b = "q_buffer iqp" and ?t = "q_top iqp" and ?p = "q_wrptr iqp"
  show ?case
  proof (cases "ntogo = 0")
    case True
    then show ?thesis by (subst rq_loop.simps) simp
  next
    case False
    then have pos: "0 < ntogo" by simp
    define k where "k = min ntogo 4"
    define w where "w = fst (fifo_read fifop)"
    define fifop' where "fifop' = snd (fifo_read fifop)"
    define mem' where "mem' = ring_store mem ?b ?t ?p (take k (word_bytes w))"
    let ?q' = "iqp\<lparr>q_wrptr := ring_adv ?b ?t ?p k\<rparr>"
    have lt: "ntogo - k < ntogo" using pos by (simp add: k_def)
    have in': "q_buffer ?q' \<le> q_wrptr ?q'" "q_wrptr ?q' < q_top ?q'"
      using ring_adv_in [OF less.prems, of k] by simp_all
    have body: "rq_body (mem, iqp, fifop, ntogo) = Again (mem', ?q', fifop', ntogo - k)"
      unfolding rq_body_eq [OF less.prems(2)] rq_tail_ok [OF pos]
      by (simp add: k_def w_def fifop'_def mem'_def)
    have nwords: "(ntogo + 3) div 4 = Suc ((ntogo - k + 3) div 4)"
      using pos by (auto simp: k_def min_def)
    have ft: "fifo_take ((ntogo + 3) div 4) fifop =
        (w # fst (fifo_take ((ntogo - k + 3) div 4) fifop'),
         snd (fifo_take ((ntogo - k + 3) div 4) fifop'))"
      unfolding nwords by (simp add: w_def fifop'_def split: prod.splits)
    define rest where "rest = concat (map word_bytes (fst (fifo_take ((ntogo - k + 3) div 4) fifop')))"
    have tk: "take ntogo (word_bytes w @ rest) = take k (word_bytes w) @ take (ntogo - k) rest"
      by (auto simp: k_def min_def)
    have lk: "length (take k (word_bytes w)) = k" by (simp add: k_def)
    have "ntogo = k + (ntogo - k)" by (simp add: k_def)
    then have adv: "ring_adv ?b ?t ?p ntogo = ring_adv ?b ?t (ring_adv ?b ?t ?p k) (ntogo - k)"
      by (metis ring_adv_add)
    have st: "ring_store mem ?b ?t ?p (take ntogo (word_bytes w @ rest)) =
        ring_store mem' ?b ?t (ring_adv ?b ?t ?p k) (take (ntogo - k) rest)"
      unfolding tk ring_store_append lk mem'_def ..
    have "rq_loop (mem, iqp, fifop, ntogo) = rq_loop (mem', ?q', fifop', ntogo - k)"
      using pos body by (subst rq_loop.simps) simp
    also have "\<dots> = Some (ring_store mem' ?b ?t (ring_adv ?b ?t ?p k) (take (ntogo - k) rest),
        iqp\<lparr>q_wrptr := ring_adv ?b ?t (ring_adv ?b ?t ?p k) (ntogo - k)\<rparr>,
        snd (fifo_take ((ntogo - k + 3) div 4) fifop'))"
      using less.IH [OF lt in', of mem' fifop'] by (simp add: rest_def)
    finally show ?thesis
      unfolding ft using st adv by (simp add: rest_def)
  qed
qed

lemma wake_waiting_empty: "snd (wake_waiting k tps) = []"
  by (induction k tps rule: wake_waiting.induct) simp_all





lemma length_pack_words: "length (pack_words xs) = (length xs + 3) div 4"
proof (induction xs rule: pack_words.induct)
  case 1
  then show ?case by simp
next
  case (2 x xs)
  then show ?case by (cases "3 \<le> length xs") auto
qed



subsection \<open>The queue routines\<close>

lemma wake_waiting_rlist: "rlist (fst (wake_waiting k tps)) = rlist k @ tps"
  by (induction k tps rule: wake_waiting.induct) (simp_all add: chSchReadyI_def)

lemma wake_waiting_other:
  "tp \<notin> set tps \<Longrightarrow> rdymsg (fst (wake_waiting k tps)) tp = rdymsg k tp"
  by (induction k tps rule: wake_waiting.induct) (simp_all add: chSchReadyI_def)

lemma wake_waiting_msg:
  "tp \<in> set tps \<Longrightarrow> rdymsg (fst (wake_waiting k tps)) tp = Q_OK"
proof (induction k tps rule: wake_waiting.induct)
  case (1 k)
  then show ?case by simp
next
  case (2 k t tps)
  show ?case
  proof (cases "tp \<in> set tps")
    case True
    then show ?thesis using 2 by simp
  next
    case False
    then have "tp = t" using 2 by simp
    then show ?thesis using False by (simp add: wake_waiting_other chSchReadyI_def)
  qed
qed

lemma wq_loop_zero: "wq_loop mem (oqp, fifop, 0) = Some (oqp, fifop)"
  by (subst wq_loop.simps) simp

lemma wq_loop_total:
  assumes "oq_ok oqp \<or> ntogo = 0"
  shows "wq_loop mem (oqp, fifop, ntogo) =
     Some (oqp\<lparr>q_rdptr := ring_adv (q_buffer oqp) (q_top oqp) (q_rdptr oqp) ntogo\<rparr>,
           fifop @ pack_words (ring_bytes mem (q_buffer oqp) (q_top oqp) (q_rdptr oqp) ntogo))"
proof (cases "ntogo = 0")
  case True
  then show ?thesis by (simp add: wq_loop_zero)
next
  case False
  then have "q_buffer oqp \<le> q_rdptr oqp" "q_rdptr oqp < q_top oqp"
    using assms by (simp_all add: oq_ok_def)
  then show ?thesis by (rule wq_loop_ok)
qed

lemma otg_fifo_write_from_queue_eq:
  assumes "oq_ok oqp \<or> n = 0"
  shows "otg_fifo_write_from_queue mem k oqp fifop n =
     Some (fst (wake_waiting k (q_waiting oqp)),
           oqp\<lparr>q_rdptr := ring_adv (q_buffer oqp) (q_top oqp) (q_rdptr oqp) (unat n),
               q_counter := q_counter oqp + n, q_waiting := []\<rparr>,
           fifop @ pack_words (ring_bytes mem (q_buffer oqp) (q_top oqp) (q_rdptr oqp) (unat n)))"
proof -
  have "oq_ok oqp \<or> unat n = 0" using assms by auto
  note l = wq_loop_total [OF this, of mem fifop]
  have e: "snd (wake_waiting k (q_waiting oqp)) = []" by (rule wake_waiting_empty)
  show ?thesis
    unfolding otg_fifo_write_from_queue_def l
    by (simp add: Let_def case_prod_beta e)
qed

lemma otg_fifo_read_to_queue_eq:
  assumes "iq_ok iqp"
  shows "otg_fifo_read_to_queue mem k iqp fifop n = Some (bytewise_read_to_queue mem k iqp fifop n)"
proof -
  have v: "q_buffer iqp \<le> q_wrptr iqp" "q_wrptr iqp < q_top iqp"
    using assms by (simp_all add: iq_ok_def)
  show ?thesis
    by (simp add: otg_fifo_read_to_queue_def rq_loop_ok [OF v]
        bytewise_read_to_queue_def Let_def split: prod.splits)
qed

text \<open>
  Claim C9. For every byte count \<open>n\<close>, zero included, \<^verbatim>\<open>otg_fifo_write_from_queue\<close>
  returns on a well-formed queue (on any queue when \<open>n\<close> is zero), having written the
  bytes to the FIFO; it adds exactly \<open>n\<close>, in \<^verbatim>\<open>size_t\<close> arithmetic, to the queue's
  counter and wakes every thread of the waiting list: the list is empty afterwards, the
  threads are on the ready list in their order, each with the message \<^verbatim>\<open>Q_OK\<close>.
\<close>

theorem write_from_queue_bookkeeping:
  assumes "oq_ok oqp \<or> n = 0"
  shows "\<exists>k' oqp' fifop'.
           otg_fifo_write_from_queue mem k oqp fifop n = Some (k', oqp', fifop') \<and>
           fifop' = fifop @
             pack_words (ring_bytes mem (q_buffer oqp) (q_top oqp) (q_rdptr oqp) (unat n)) \<and>
           q_counter oqp' = q_counter oqp + n \<and>
           q_waiting oqp' = [] \<and>
           rlist k' = rlist k @ q_waiting oqp \<and>
           (\<forall>tp \<in> set (q_waiting oqp). rdymsg k' tp = Q_OK)"
  unfolding otg_fifo_write_from_queue_eq [OF assms]
  by (simp add: wake_waiting_rlist wake_waiting_msg)

theorem write_from_queue_bookkeeping_witness:
  "(\<exists>k' oqp'.
      otg_fifo_write_from_queue example_memory example_kernel example_queue [] 0
        = Some (k', oqp', []) \<and>
      q_counter oqp' = 7 \<and> q_waiting oqp' = [] \<and> rlist k' = [3, 5] \<and>
      rdymsg k' 3 = Q_OK \<and> rdymsg k' 5 = Q_OK) \<and>
   (\<exists>k' oqp' fifop'.
      otg_fifo_write_from_queue example_memory example_kernel example_queue [] 5
        = Some (k', oqp', fifop') \<and>
      q_counter oqp' = 12 \<and> q_waiting oqp' = [] \<and> rlist k' = [3, 5] \<and>
      rdymsg k' 3 = Q_OK \<and> rdymsg k' 5 = Q_OK)"
proof -
  have ok: "oq_ok example_queue \<or> (0 :: u32) = 0" "oq_ok example_queue \<or> (5 :: u32) = 0"
    by (simp_all add: oq_ok_def example_queue_def)
  show ?thesis
    using write_from_queue_bookkeeping [OF ok(1), of example_memory example_kernel "[]"]
      write_from_queue_bookkeeping [OF ok(2), of example_memory example_kernel "[]"]
    by (auto simp: example_queue_def example_kernel_def)
qed





text \<open>
  Claim C3. In \<^verbatim>\<open>otg_fifo_read_to_queue\<close> the words up to the end of the buffer are
  computed as the write pointer minus itself, which is zero, so the burst is always of
  zero words; on
  every well-formed queue and for every length the routine returns and its result (store,
  kernel, queue with its write pointer and counter, FIFO) is that of the byte-at-a-time
  copy.
\<close>

theorem read_to_queue_bytewise:
  assumes "iq_ok iqp"
  shows "ptrdiff_words (q_wrptr iqp) (q_wrptr iqp) = 0 \<and>
         rq_streak iqp nw = 0 \<and>
         otg_fifo_read_to_queue mem k iqp fifop n = Some (bytewise_read_to_queue mem k iqp fifop n)"
  using otg_fifo_read_to_queue_eq [OF assms] by (simp add: rq_streak_zero ptrdiff_words_self)

theorem read_to_queue_bytewise_witness:
  "rq_streak example_queue 2 = 0 \<and>
   otg_fifo_read_to_queue (\<lambda>a. 0) example_kernel example_queue
       [0x04030201, 0x08070605, 0x0A09] 10 =
     Some (bytewise_read_to_queue (\<lambda>a. 0) example_kernel example_queue
       [0x04030201, 0x08070605, 0x0A09] 10)"
  using read_to_queue_bytewise [of example_queue 2 "\<lambda>a. 0" example_kernel
      "[0x04030201, 0x08070605, 0x0A09]" 10]
  by (simp add: iq_ok_def example_queue_def)

subsection \<open>Reading into a linear buffer\<close>

lemma fifo_read_snd: "snd (fifo_read fifop) = drop 1 fifop"
  by (cases fifop) (simp_all add: fifo_read_def)

lemma rb_loop_fifo: "snd (rb_loop mem fifop buf n mx) = drop n fifop"
proof (induction mem fifop buf n mx rule: rb_loop.induct)
  case (1 mem fifop buf n mx)
  show ?case
  proof (cases "n = 0")
    case True
    then show ?thesis by (subst rb_loop.simps) simp
  next
    case False
    obtain w fifop' where r: "fifo_read fifop = (w, fifop')" by (cases "fifo_read fifop")
    then have f: "fifop' = drop 1 fifop" using fifo_read_snd [of fifop] by simp
    have d: "drop (n - 1) (drop 1 fifop) = drop n fifop" using False by simp
    show ?thesis
    proof (cases "mx = 0")
      case True
      then show ?thesis
        using False r "1.IH"(2) [OF False r [symmetric] refl] f d
        by (subst rb_loop.simps) simp
    next
      case mx: False
      then show ?thesis
        using False r "1.IH"(1) [OF False r [symmetric] refl] f d
        by (subst rb_loop.simps) simp
    qed
  qed
qed

lemma otg_fifo_read_to_buffer_pops:
  "snd (otg_fifo_read_to_buffer mem fifop buf n mx) = drop (unat ((n + 3) div 4)) fifop"
  by (simp add: otg_fifo_read_to_buffer_def rb_loop_fifo)

text \<open>
  Claim C6 against the code: a packet of 8 bytes read with \<open>max = 5\<close>. The two words of
  the packet are popped, as claimed, but all 8 bytes are stored: the three bytes after
  the first five of the destination are overwritten, since \<open>max\<close> is rounded up to whole
  words.
\<close>

theorem otg_fifo_read_to_buffer_overrun:
  "snd (otg_fifo_read_to_buffer (\<lambda>a. 0) [0x04030201, 0x08070605, 0x0C0B0A09] 100 8 5)
     = [0x0C0B0A09] \<and>
   map (fst (otg_fifo_read_to_buffer (\<lambda>a. 0) [0x04030201, 0x08070605, 0x0C0B0A09] 100 8 5))
     [100, 101, 102, 103, 104, 105, 106, 107, 108] = [1, 2, 3, 4, 5, 6, 7, 8, 0]"
  by (simp add: otg_fifo_read_to_buffer_def rb_loop.simps fifo_read_def store32_def)

subsection \<open>The transmit fill engine\<close>

lemma tx_write_frame:
  "tx_write s n = Some s1 \<Longrightarrow>
   txcnt (in_state s1) = txcnt (in_state s) \<and> txsize (in_state s1) = txsize (in_state s) \<and>
   txqueued (in_state s1) = txqueued (in_state s) \<and>
   pushed s1 = pushed s \<and> DTXFSTS_reads s1 = DTXFSTS_reads s \<and> ram s1 = ram s"
  by (auto simp: tx_write_def split: if_splits option.splits)

lemma oq_ok_adv:
  "oq_ok oqp \<Longrightarrow> oq_ok (oqp\<lparr>q_rdptr := ring_adv (q_buffer oqp) (q_top oqp) (q_rdptr oqp) m,
      q_counter := c, q_waiting := w\<rparr>)"
  using ring_adv_in [of "q_buffer oqp" "q_rdptr oqp" "q_top oqp" m] by (simp add: oq_ok_def)

lemma tx_write_total:
  assumes "tx_ok s"
  shows "\<exists>s1. tx_write s n = Some s1 \<and> tx_ok s1"
proof (cases "txqueued (in_state s)")
  case False
  then show ?thesis by (simp add: tx_write_def tx_ok_def)
next
  case True
  then have ok: "oq_ok (txqueue (in_state s))" using assms by (simp add: tx_ok_def)
  then have ok': "oq_ok (txqueue (in_state s)) \<or> n = 0" by simp
  show ?thesis
    using True oq_ok_adv [OF ok]
    by (simp add: tx_write_def otg_fifo_write_from_queue_eq [OF ok'] tx_ok_def)
qed

lemma tx_count_fields:
  "txcnt (in_state (tx_count s n)) = txcnt (in_state s) + n"
  "txsize (in_state (tx_count s n)) = txsize (in_state s)"
  "txqueued (in_state (tx_count s n)) = txqueued (in_state s)"
  "txqueue (in_state (tx_count s n)) = txqueue (in_state s)"
  "pushed (tx_count s n) = pushed s @ [(n, txcnt (in_state s) + n)]"
  "DTXFSTS_reads (tx_count s n) = DTXFSTS_reads s"
  by (simp_all add: tx_count_def)

lemma tx_ok_count: "tx_ok (tx_count s n) = tx_ok s"
  by (simp add: tx_ok_def tx_count_fields)

lemma unat_ucast_16_32: "unat (ucast (m :: 16 word) :: u32) = unat m"
proof -
  have "unat m < 2 ^ 16" using unsigned_less [of m, where 'a = nat] by simp
  then have "unat m < 2 ^ 32" by simp
  then show ?thesis by (simp add: unsigned_ucast_eq take_bit_nat_eq_self)
qed

lemma tx_packet_size_unat:
  assumes "txcnt isp < txsize isp"
  shows "unat (tx_packet_size m isp) = min (unat m) (unat (txsize isp) - unat (txcnt isp))"
    and "unat (txcnt isp + tx_packet_size m isp) = unat (txcnt isp) + unat (tx_packet_size m isp)"
proof -
  have le: "txcnt isp \<le> txsize isp" using assms by simp
  have sub: "unat (txsize isp - txcnt isp) = unat (txsize isp) - unat (txcnt isp)"
    using le by (simp add: unat_sub)
  show n: "unat (tx_packet_size m isp) = min (unat m) (unat (txsize isp) - unat (txcnt isp))"
    using sub by (auto simp: tx_packet_size_def Let_def word_less_nat_alt unat_ucast_16_32)
  have "unat (txcnt isp) + unat (tx_packet_size m isp) \<le> unat (txsize isp)"
    using n assms by (simp add: word_less_nat_alt)
  then have "unat (txcnt isp) + unat (tx_packet_size m isp) < 2 ^ 32"
    using unsigned_less [of "txsize isp", where 'a = nat] by simp
  then show "unat (txcnt isp + tx_packet_size m isp) = unat (txcnt isp) + unat (tx_packet_size m isp)"
    by (simp add: unat_word_ariths)
qed

lemma tx_packet_size_short:
  assumes "tx_packet_size m isp < ucast m"
  shows "txcnt isp + tx_packet_size m isp = txsize isp"
  using assms by (auto simp: tx_packet_size_def Let_def split: if_splits)

lemma tx_post_done: "txsize (in_state s) \<le> txcnt (in_state s) \<Longrightarrow> tx_post m s (True, s)"
  by (simp add: tx_post_def)

lemma tx_post_short:
  "\<not> txsize (in_state s) \<le> txcnt (in_state s) \<Longrightarrow>
   tx_post m s (False, s\<lparr>DTXFSTS_reads := k\<rparr>)"
  by (simp add: tx_post_def)

lemma tx_packet_size_le: "tx_packet_size m isp \<le> ucast m"
  by (auto simp: tx_packet_size_def Let_def not_less)

lemma tx_post_push:
  assumes lt: "txcnt (in_state s) < txsize (in_state s)"
    and f2: "txsize (in_state s2) = txsize (in_state s)"
      "txcnt (in_state s2) = txcnt (in_state s) + tx_packet_size m (in_state s)"
      "pushed s2 = pushed s @ [(tx_packet_size m (in_state s),
                                 txcnt (in_state s) + tx_packet_size m (in_state s))]"
    and post: "tx_post m s2 y"
  shows "tx_post m s y"
proof -
  let ?T = "txsize (in_state s)" and ?C = "txcnt (in_state s)"
  let ?n = "tx_packet_size m (in_state s)"
  let ?x = "(?n, ?C + ?n)"
  have le2: "?C + ?n \<le> ?T"
    using tx_packet_size_unat [OF lt, of m] lt by (simp add: word_le_nat_alt word_less_nat_alt)
  from post obtain new where
    a: "txsize (in_state (snd y)) = ?T"
    and b: "fst y \<longleftrightarrow> txsize (in_state (snd y)) \<le> txcnt (in_state (snd y))"
    and c: "txcnt (in_state (snd y)) \<le> txsize (in_state (snd y))"
    and p: "pushed (snd y) = (pushed s @ [?x]) @ new"
    and t: "txcnt (in_state (snd y)) = (?C + ?n) + sum_list (map fst new)"
    and e: "?T \<le> ?C + ?n \<longrightarrow> new = []"
    and q: "\<forall>i < length new.
           snd (new ! i) = (?C + ?n) + sum_list (map fst (take (Suc i) new)) \<and>
           fst (new ! i) \<le> ucast m \<and>
           (fst (new ! i) < ucast m \<longrightarrow> snd (new ! i) = ?T \<and> Suc i = length new)"
    unfolding tx_post_def f2 using le2 by blast
  have q0: "?n < ucast m \<longrightarrow> ?C + ?n = ?T"
    using tx_packet_size_short [of m "in_state s"] by simp
  have p': "pushed (snd y) = pushed s @ (?x # new)"
    using p by simp
  have t': "txcnt (in_state (snd y)) = ?C + sum_list (map fst (?x # new))"
    using t by (simp add: add.assoc)
  have e': "?T \<le> ?C \<longrightarrow> ?x # new = []"
    using lt by simp
  have q': "snd ((?x # new) ! i) = ?C + sum_list (map fst (take (Suc i) (?x # new))) \<and>
           fst ((?x # new) ! i) \<le> ucast m \<and>
           (fst ((?x # new) ! i) < ucast m \<longrightarrow>
              snd ((?x # new) ! i) = ?T \<and> Suc i = length (?x # new))"
    if "i < length (?x # new)" for i
  proof (cases i)
    case 0
    have "?n < ucast m \<longrightarrow> new = []" using q0 e by simp
    then show ?thesis using 0 q0 by (simp add: tx_packet_size_le)
  next
    case (Suc j)
    then have j: "j < length new" using that by simp
    from q j have
      q1: "snd (new ! j) = (?C + ?n) + sum_list (map fst (take (Suc j) new))"
      and q2: "fst (new ! j) \<le> ucast m"
      and q3: "fst (new ! j) < ucast m \<longrightarrow> snd (new ! j) = ?T \<and> Suc j = length new"
      by blast+
    have g1: "(?x # new) ! i = new ! j" using Suc by simp
    have g2: "take (Suc i) (?x # new) = ?x # take (Suc j) new" using Suc by simp
    have g3: "(Suc i = length (?x # new)) = (Suc j = length new)" using Suc by simp
    have g4: "?C + sum_list (map fst (?x # take (Suc j) new)) =
        (?C + ?n) + sum_list (map fst (take (Suc j) new))"
      by (simp add: add.assoc)
    show ?thesis unfolding g1 g2 g3 g4 using q1 q2 q3 by blast
  qed
  have "\<exists>new. pushed (snd y) = pushed s @ new \<and>
        txcnt (in_state (snd y)) = ?C + sum_list (map fst new) \<and>
        (?T \<le> ?C \<longrightarrow> new = []) \<and>
        (\<forall>i < length new.
           snd (new ! i) = ?C + sum_list (map fst (take (Suc i) new)) \<and>
           fst (new ! i) \<le> ucast m \<and>
           (fst (new ! i) < ucast m \<longrightarrow> snd (new ! i) = ?T \<and> Suc i = length new))"
    using p' t' e' q' by blast
  then show ?thesis
    unfolding tx_post_def using a b c by simp
qed

lemma handler_post_step:
  assumes IH: "\<And>s y. f cfg d m s = Some y \<Longrightarrow> tx_post m s y"
    and body:
      "(if txsize (in_state s) \<le> txcnt (in_state s) then Some (True, s)
        else if tx_space_short cfg d s (tx_packet_size m (in_state s))
        then Some (False, s\<lparr>DTXFSTS_reads := DTXFSTS_reads s + 1\<rparr>)
        else (case tx_write (s\<lparr>DTXFSTS_reads := DTXFSTS_reads s + 1\<rparr>)
                     (tx_packet_size m (in_state s)) of
                None \<Rightarrow> None
              | Some s' \<Rightarrow> f cfg d m (tx_count s' (tx_packet_size m (in_state s))))) = Some y"
  shows "tx_post m s y"
proof -
  let ?T = "txsize (in_state s)" and ?C = "txcnt (in_state s)"
  let ?n = "tx_packet_size m (in_state s)"
  let ?s0 = "s\<lparr>DTXFSTS_reads := DTXFSTS_reads s + 1\<rparr>"
  consider (fin) "?T \<le> ?C" | (short) "\<not> ?T \<le> ?C" "tx_space_short cfg d s ?n"
    | (push) "\<not> ?T \<le> ?C" "\<not> tx_space_short cfg d s ?n"
    by blast
  then show ?thesis
  proof cases
    case fin
    then have "y = (True, s)" using body by simp
    then show ?thesis using fin by (simp add: tx_post_done)
  next
    case short
    then have "y = (False, ?s0)" using body by simp
    then show ?thesis using short by (simp add: tx_post_short)
  next
    case push
    then have b: "(case tx_write ?s0 ?n of None \<Rightarrow> None
                   | Some s' \<Rightarrow> f cfg d m (tx_count s' ?n)) = Some y"
      using body by simp
    then obtain s1 where
      w: "tx_write ?s0 ?n = Some s1" and rec: "f cfg d m (tx_count s1 ?n) = Some y"
      by (cases "tx_write ?s0 ?n") simp_all
    note fr = tx_write_frame [OF w]
    have lt: "?C < ?T" using push by simp
    show ?thesis
    proof (rule tx_post_push [OF lt _ _ _ IH [OF rec]])
      show "txsize (in_state (tx_count s1 ?n)) = ?T" using fr by (simp add: tx_count_fields)
      show "txcnt (in_state (tx_count s1 ?n)) = ?C + ?n" using fr by (simp add: tx_count_fields)
      show "pushed (tx_count s1 ?n) = pushed s @ [(?n, ?C + ?n)]"
        using fr by (simp add: tx_count_fields)
    qed
  qed
qed

lemma handler_post:
  assumes h: "otg_txfifo_handler cfg d m s = Some y"
  shows "tx_post m s y"
proof (rule otg_txfifo_handler.raw_induct [where P = "\<lambda>cfg d m s y. tx_post m s y", OF _ h],
    goal_cases)
  case (1 f cfg d m s y)
  show ?case by (rule handler_post_step [where f = f and cfg = cfg and d = d]) (fact 1)+
qed

lemma tx_ok_reads [simp]: "tx_ok (s\<lparr>DTXFSTS_reads := k\<rparr>) = tx_ok s"
  by (simp add: tx_ok_def)

lemma handler_total:
  assumes "m \<noteq> 0" "tx_ok s"
  shows "\<exists>y. otg_txfifo_handler cfg d m s = Some y"
  using assms(2)
proof (induction "unat (txsize (in_state s)) - unat (txcnt (in_state s))" arbitrary: s
    rule: less_induct)
  case less
  let ?T = "txsize (in_state s)" and ?C = "txcnt (in_state s)"
  let ?n = "tx_packet_size m (in_state s)"
  let ?s0 = "s\<lparr>DTXFSTS_reads := DTXFSTS_reads s + 1\<rparr>"
  show ?case
  proof (cases "?T \<le> ?C \<or> tx_space_short cfg d s ?n")
    case True
    then show ?thesis by (subst otg_txfifo_handler.simps) auto
  next
    case False
    then have lt: "?C < ?T" by auto
    from tx_write_total [of ?s0 ?n] less.prems obtain s1 where
      w: "tx_write ?s0 ?n = Some s1" and ok1: "tx_ok s1" by auto
    note fr = tx_write_frame [OF w]
    let ?s2 = "tx_count s1 ?n"
    note u = tx_packet_size_unat [OF lt, of m]
    have mpos: "0 < unat m" using assms(1) by (simp add: unat_gt_0)
    have "unat (txsize (in_state ?s2)) - unat (txcnt (in_state ?s2)) < unat ?T - unat ?C"
      using fr u mpos lt by (simp add: tx_count_fields word_less_nat_alt)
    moreover have "tx_ok ?s2" using ok1 by (simp add: tx_ok_count)
    ultimately obtain y where "otg_txfifo_handler cfg d m ?s2 = Some y"
      using less.hyps [of ?s2] by blast
    then show ?thesis
      using False w by (subst otg_txfifo_handler.simps) auto
  qed
qed

lemma ceil_div_step:
  assumes "0 < (r :: nat)" "0 < m"
  shows "Suc ((r - min m r + m - 1) div m) = (r + m - 1) div m"
proof (cases "r \<le> m")
  case True
  then have "(r + m - 1) div m = 1"
    using assms by (simp add: div_nat_eqI)
  then show ?thesis using True assms by (simp add: min_def)
next
  case False
  then have e: "r + m - 1 = (r - 1) + m" "r - min m r + m - 1 = r - 1"
    using assms by (simp_all add: min_def)
  show ?thesis
    unfolding e using div_add_self2 [of m "r - 1"] assms by simp
qed

lemma handler_unlimited:
  assumes "m \<noteq> 0" "tx_ok s" "txcnt (in_state s) \<le> txsize (in_state s)"
    and space: "\<forall>k. ucast m \<le> (d k AND DTXFSTS_INEPTFSAV_MASK cfg) * 4"
  shows "\<exists>s' new. otg_txfifo_handler cfg d m s = Some (True, s') \<and>
           pushed s' = pushed s @ new \<and>
           length new = (unat (txsize (in_state s)) - unat (txcnt (in_state s)) + unat m - 1)
                          div unat m \<and>
           txcnt (in_state s') = txsize (in_state s)"
  using assms(2,3)
proof (induction "unat (txsize (in_state s)) - unat (txcnt (in_state s))" arbitrary: s
    rule: less_induct)
  case less
  let ?T = "txsize (in_state s)" and ?C = "txcnt (in_state s)"
  let ?n = "tx_packet_size m (in_state s)"
  let ?s0 = "s\<lparr>DTXFSTS_reads := DTXFSTS_reads s + 1\<rparr>"
  have mpos: "0 < unat m" using assms(1) by (simp add: unat_gt_0)
  show ?case
  proof (cases "?T \<le> ?C")
    case True
    then have eq: "?C = ?T" using less.prems by simp
    have "otg_txfifo_handler cfg d m s = Some (True, s)"
      using True by (subst otg_txfifo_handler.simps) simp
    then show ?thesis using eq mpos by simp
  next
    case False
    then have lt: "?C < ?T" by simp
    note u = tx_packet_size_unat [OF lt, of m]
    have "?n \<le> ucast m"
      using u by (simp add: word_le_nat_alt unat_ucast_16_32)
    then have "?n \<le> (d (DTXFSTS_reads s) AND DTXFSTS_INEPTFSAV_MASK cfg) * 4"
      using space by (meson order_trans)
    then have nshort: "\<not> tx_space_short cfg d s ?n"
      by (simp add: tx_space_short_def not_less)
    from tx_write_total [of ?s0 ?n] less.prems obtain s1 where
      w: "tx_write ?s0 ?n = Some s1" and ok1: "tx_ok s1" by auto
    note fr = tx_write_frame [OF w]
    let ?s2 = "tx_count s1 ?n"
    have f2: "txsize (in_state ?s2) = ?T" "txcnt (in_state ?s2) = ?C + ?n"
      "pushed ?s2 = pushed s @ [(?n, ?C + ?n)]"
      using fr by (simp_all add: tx_count_fields)
    have le2: "txcnt (in_state ?s2) \<le> txsize (in_state ?s2)"
      unfolding f2 using u lt by (simp add: word_le_nat_alt word_less_nat_alt)
    have r2: "unat (txsize (in_state ?s2)) - unat (txcnt (in_state ?s2)) =
        (unat ?T - unat ?C) - min (unat m) (unat ?T - unat ?C)"
      unfolding f2 using u by simp
    have rpos: "0 < unat ?T - unat ?C" using lt by (simp add: word_less_nat_alt)
    have dec: "unat (txsize (in_state ?s2)) - unat (txcnt (in_state ?s2)) < unat ?T - unat ?C"
      unfolding r2 using rpos mpos by simp
    have ok2: "tx_ok ?s2" using ok1 by (simp add: tx_ok_count)
    from less.hyps [OF dec ok2 le2] obtain s' new where
      h: "otg_txfifo_handler cfg d m ?s2 = Some (True, s')"
      and p: "pushed s' = pushed ?s2 @ new"
      and l: "length new =
          (unat (txsize (in_state ?s2)) - unat (txcnt (in_state ?s2)) + unat m - 1) div unat m"
      and c: "txcnt (in_state s') = txsize (in_state ?s2)"
      by blast
    have "otg_txfifo_handler cfg d m s = Some (True, s')"
      using False nshort w h by (subst otg_txfifo_handler.simps) simp
    moreover have "pushed s' = pushed s @ ((?n, ?C + ?n) # new)"
      using p f2 by simp
    moreover have "length ((?n, ?C + ?n) # new) = (unat ?T - unat ?C + unat m - 1) div unat m"
      using l ceil_div_step [OF rpos mpos] unfolding r2 by simp
    moreover have "txcnt (in_state s') = ?T" using c f2 by simp
    ultimately show ?thesis by blast
  qed
qed

lemma ring_bytes_linear: "p + n \<le> t \<Longrightarrow> ring_bytes mem b t p n = map mem [p ..< p + n]"
proof (induction n arbitrary: p)
  case 0
  then show ?case by simp
next
  case (Suc n)
  show ?case
  proof (cases n)
    case 0
    then show ?thesis by simp
  next
    case (Suc k)
    then have nx: "ring_next b t p = p + 1" using Suc.prems by (simp add: ring_next_def)
    have "ring_bytes mem b t (p + 1) n = map mem [p + 1 ..< p + 1 + n]"
      using Suc.IH [of "p + 1"] Suc.prems by simp
    moreover have "[p ..< p + Suc n] = p # [p + 1 ..< p + 1 + n]"
      by (simp del: upt_Suc add: upt_conv_Cons)
    ultimately show ?thesis
      using nx by (simp del: upt_Suc)
  qed
qed

lemma otg_do_push_linear:
  "otg_do_push mem fifop p k = (fifop @ pack_words (map mem [p ..< p + 4 * k]), p + 4 * k)"
  using otg_do_push_ring [of p k "p + 4 * k" mem fifop 0]
    ring_bytes_linear [of p "4 * k" "p + 4 * k" mem 0]
  by simp

lemma otg_fifo_write_from_buffer_eq:
  assumes "unat n + 3 < 2 ^ 32"
  shows "otg_fifo_write_from_buffer mem fifop buf n =
           fifop @ pack_words (map mem [buf ..< buf + 4 * ((unat n + 3) div 4)])"
proof -
  have "unat (n + 3) = unat n + 3"
    using assms by (simp add: unat_word_ariths)
  then have "unat ((n + 3) div 4) = (unat n + 3) div 4"
    by (simp add: unat_div)
  then show ?thesis
    by (simp add: otg_fifo_write_from_buffer_def otg_do_push_linear)
qed

lemma tx_packets_Nil [simp]: "tx_packets mem isp [] = []"
  by (simp add: tx_packets_def)

lemma tx_packets_txcnt [simp]:
  "tx_packets mem (isp\<lparr>txcnt := c\<rparr>) ns = tx_packets mem isp ns"
  by (simp add: tx_packets_def)

lemma tx_write_packet:
  assumes "tx_ok s" "unat n + 3 < 2 ^ 32"
  shows "\<exists>s1. tx_write s n = Some s1 \<and> tx_ok s1 \<and> ram s1 = ram s \<and>
           (\<forall>ns. txfifo s1 @ concat (tx_packets (ram s) (in_state s1) ns) =
                 txfifo s @ concat (tx_packets (ram s) (in_state s) (unat n # ns)))"
proof (cases "txqueued (in_state s)")
  case False
  then show ?thesis
    using assms
    by (simp add: tx_write_def tx_ok_def tx_packets_def otg_fifo_write_from_buffer_eq)
next
  case True
  then have ok: "oq_ok (txqueue (in_state s))" using assms by (simp add: tx_ok_def)
  then have ok': "oq_ok (txqueue (in_state s)) \<or> n = 0" by simp
  show ?thesis
    using True oq_ok_adv [OF ok]
    by (simp add: tx_write_def otg_fifo_write_from_queue_eq [OF ok'] tx_ok_def tx_packets_def)
qed

lemma handler_words:
  assumes "m \<noteq> 0" "tx_ok s"
  shows "\<exists>r s' new. otg_txfifo_handler cfg d m s = Some (r, s') \<and>
           pushed s' = pushed s @ new \<and> ram s' = ram s \<and>
           txfifo s' = txfifo s @ concat (tx_packets (ram s) (in_state s) (map (unat \<circ> fst) new))"
  using assms(2)
proof (induction "unat (txsize (in_state s)) - unat (txcnt (in_state s))" arbitrary: s
    rule: less_induct)
  case less
  let ?T = "txsize (in_state s)" and ?C = "txcnt (in_state s)"
  let ?n = "tx_packet_size m (in_state s)"
  let ?s0 = "s\<lparr>DTXFSTS_reads := DTXFSTS_reads s + 1\<rparr>"
  show ?case
  proof (cases "?T \<le> ?C \<or> tx_space_short cfg d s ?n")
    case True
    then have dis: "otg_txfifo_handler cfg d m s = Some (True, s) \<or>
               otg_txfifo_handler cfg d m s = Some (False, ?s0)"
      by (subst (1 2) otg_txfifo_handler.simps) auto
    from dis show ?thesis
    proof
      assume "otg_txfifo_handler cfg d m s = Some (True, s)"
      then show ?thesis
        by (intro exI [of _ True] exI [of _ s] exI [of _ "[]"]) simp
    next
      assume "otg_txfifo_handler cfg d m s = Some (False, ?s0)"
      then show ?thesis
        by (intro exI [of _ False] exI [of _ ?s0] exI [of _ "[]"]) simp
    qed
  next
    case False
    then have lt: "?C < ?T" by auto
    note u = tx_packet_size_unat [OF lt, of m]
    have mpos: "0 < unat m" using assms(1) by (simp add: unat_gt_0)
    have "unat m < 2 ^ 16" using unsigned_less [of m, where 'a = nat] by simp
    then have n3: "unat ?n + 3 < 2 ^ 32" using u by simp
    have ok0: "tx_ok ?s0" using less.prems by simp
    from tx_write_packet [OF ok0 n3] obtain s1 where
      w: "tx_write ?s0 ?n = Some s1" and ok1: "tx_ok s1" and r1: "ram s1 = ram s"
      and f1: "\<And>ns. txfifo s1 @ concat (tx_packets (ram s) (in_state s1) ns) =
                 txfifo s @ concat (tx_packets (ram s) (in_state s) (unat ?n # ns))"
      by auto
    note fr = tx_write_frame [OF w]
    let ?s2 = "tx_count s1 ?n"
    have dec: "unat (txsize (in_state ?s2)) - unat (txcnt (in_state ?s2)) < unat ?T - unat ?C"
      using fr u mpos lt by (simp add: tx_count_fields word_less_nat_alt)
    have ok2: "tx_ok ?s2" using ok1 by (simp add: tx_ok_count)
    from less.hyps [OF dec ok2] obtain r s' new where
      h: "otg_txfifo_handler cfg d m ?s2 = Some (r, s')"
      and p: "pushed s' = pushed ?s2 @ new"
      and rm: "ram s' = ram ?s2"
      and f: "txfifo s' = txfifo ?s2 @
                concat (tx_packets (ram ?s2) (in_state ?s2) (map (unat \<circ> fst) new))"
      by blast
    have s2: "ram ?s2 = ram s" "txfifo ?s2 = txfifo s1"
      "tx_packets (ram s) (in_state ?s2) ns = tx_packets (ram s) (in_state s1) ns" for ns
      using r1 by (simp_all add: tx_count_def)
    have hs: "otg_txfifo_handler cfg d m s = Some (r, s')"
      using False w h by (subst otg_txfifo_handler.simps) auto
    have ps: "pushed s' = pushed s @ ((?n, ?C + ?n) # new)"
      using p fr by (simp add: tx_count_fields)
    have fs: "txfifo s' = txfifo s @
        concat (tx_packets (ram s) (in_state s) (map (unat \<circ> fst) ((?n, ?C + ?n) # new)))"
    proof -
      have "txfifo s' = txfifo s1 @
          concat (tx_packets (ram s) (in_state s1) (map (unat \<circ> fst) new))"
        using f unfolding s2 .
      also have "\<dots> = txfifo s @
          concat (tx_packets (ram s) (in_state s) (unat ?n # map (unat \<circ> fst) new))"
        by (rule f1)
      finally show ?thesis by simp
    qed
    have rs: "ram s' = ram s" using rm s2(1) by simp
    show ?thesis
      by (rule exI [of _ r], rule exI [of _ s'], rule exI [of _ "(?n, ?C + ?n) # new"])
        (intro conjI hs ps fs rs)
  qed
qed

lemma length_tx_packets: "length (tx_packets mem isp ns) = length ns"
proof -
  have "length (linear_packets mem buf ns) = length ns" for buf
    by (induction ns arbitrary: buf) simp_all
  moreover have "length (queue_packets mem b t p ns) = length ns" for b t p
    by (induction ns arbitrary: p) simp_all
  ultimately show ?thesis by (simp add: tx_packets_def)
qed

lemma last_bytes: "pack_words (map example_memory [128 ..< 132]) = [0x83828180]"
proof -
  have "[128 ..< 132] = [128, 129, 130, 131 :: nat]"
    by (simp add: upt_rec)
  then show ?thesis by (simp add: example_memory_def)
qed

lemma last_append3: "last (xs @ ys @ [x]) = x"
  by simp

lemma tx_post_last:
  assumes "tx_post m s (r, s')" "pushed s' = pushed s @ new" "new \<noteq> []"
  shows "snd (last new) = txcnt (in_state s')"
proof -
  from assms(1) obtain new' where
    p: "pushed s' = pushed s @ new'"
    and t: "txcnt (in_state s') = txcnt (in_state s) + sum_list (map fst new')"
    and q: "\<forall>i < length new'.
           snd (new' ! i) = txcnt (in_state s) + sum_list (map fst (take (Suc i) new'))"
    unfolding tx_post_def by auto
  have e: "new' = new" using p assms(2) by simp
  have "length new - 1 < length new" using assms(3) by simp
  then have "snd (new ! (length new - 1)) =
      txcnt (in_state s) + sum_list (map fst (take (Suc (length new - 1)) new))"
    using q e by blast
  then show ?thesis using assms(3) t e by (simp add: last_conv_nth)
qed

text \<open>
  Claim C1, as amended. For a transfer of total size \<open>T\<close> started with nothing
  transferred, a maximum packet size \<open>M > 0\<close> and a TX FIFO that always reports room for
  a full packet, \<^verbatim>\<open>otg_txfifo_handler\<close> returns \<open>True\<close> after exactly \<open>\<lceil>T / M\<rceil>\<close> packet
  writes, every packet of the full size except possibly the last and the sizes adding up
  to \<open>T\<close>: the TX FIFO has received, after what it held, the words of these \<open>\<lceil>T / M\<rceil>\<close>
  packets taken in order from the linear buffer or the queue, and nothing else. For
  \<open>T = 0\<close> that is no write at all: the state is returned as it was.
\<close>

theorem txfifo_handler_fill_complete:
  assumes "m \<noteq> 0" "tx_ok s" "txcnt (in_state s) = 0"
    and "\<forall>k. ucast m \<le> (d k AND DTXFSTS_INEPTFSAV_MASK cfg) * 4"
  shows "\<exists>s' new. otg_txfifo_handler cfg d m s = Some (True, s') \<and>
           pushed s' = pushed s @ new \<and>
           length new = (unat (txsize (in_state s)) + unat m - 1) div unat m \<and>
           (\<forall>i < length new. fst (new ! i) = ucast m \<or> Suc i = length new) \<and>
           sum_list (map fst new) = txsize (in_state s) \<and>
           txcnt (in_state s') = txsize (in_state s) \<and>
           length (tx_packets (ram s) (in_state s) (map (unat \<circ> fst) new)) =
             (unat (txsize (in_state s)) + unat m - 1) div unat m \<and>
           txfifo s' =
             txfifo s @ concat (tx_packets (ram s) (in_state s) (map (unat \<circ> fst) new)) \<and>
           (txsize (in_state s) = 0 \<longrightarrow> s' = s)"
proof -
  from handler_unlimited [OF assms(1,2) _ assms(4)] assms(3) obtain s' new where
    h: "otg_txfifo_handler cfg d m s = Some (True, s')"
    and p: "pushed s' = pushed s @ new"
    and l: "length new = (unat (txsize (in_state s)) + unat m - 1) div unat m"
    and c: "txcnt (in_state s') = txsize (in_state s)"
    by auto
  from handler_post [OF h, unfolded tx_post_def, simplified] obtain new' where
    p': "pushed s' = pushed s @ new'"
    and t: "txcnt (in_state s') = txcnt (in_state s) + sum_list (map fst new')"
    and q: "\<forall>i < length new'. fst (new' ! i) \<le> ucast m \<and>
              (fst (new' ! i) < ucast m \<longrightarrow> Suc i = length new')"
    by blast
  have e: "new' = new" using p p' by simp
  from handler_words [OF assms(1,2), of cfg d] h obtain new'' where
    p'': "pushed s' = pushed s @ new''"
    and f: "txfifo s' =
        txfifo s @ concat (tx_packets (ram s) (in_state s) (map (unat \<circ> fst) new''))"
    by auto
  have e': "new'' = new" using p p'' by simp
  have a: "fst (new ! i) = ucast m \<or> Suc i = length new" if "i < length new" for i
    using q that unfolding e by (meson order_le_less)
  have b: "sum_list (map fst new) = txsize (in_state s)"
    using t c assms(3) unfolding e by simp
  have z: "s' = s" if "txsize (in_state s) = 0"
  proof -
    have "otg_txfifo_handler cfg d m s = Some (True, s)"
      using that assms(3) by (subst otg_txfifo_handler.simps) simp
    then show ?thesis using h by simp
  qed
  have g: "length (tx_packets (ram s) (in_state s) (map (unat \<circ> fst) new)) =
             (unat (txsize (in_state s)) + unat m - 1) div unat m"
    using l by (simp add: length_tx_packets)
  show ?thesis
    apply (rule exI [of _ s'], rule exI [of _ new])
    using h p l a b c g f z unfolding e' by (intro conjI allI impI) auto
qed


theorem txfifo_handler_fill_complete_witness:
  "\<exists>s' new. otg_txfifo_handler example_config (\<lambda>k. 64) 64 example_tx_state = Some (True, s') \<and>
     pushed s' = new \<and> map fst new = [64, 64, 2] \<and>
     length (txfifo s') = 33 \<and> last (txfifo s') = 0x83828180 \<and>
     txcnt (in_state s') = 130"
proof -
  have pre: "(64 :: 16 word) \<noteq> 0" "tx_ok example_tx_state" "txcnt (in_state example_tx_state) = 0"
    "\<forall>k. ucast (64 :: 16 word) \<le> (((\<lambda>k. 64) k) AND DTXFSTS_INEPTFSAV_MASK example_config) * 4"
    by (simp_all add: tx_ok_def example_tx_state_def example_in_state_def example_config_def)
  from txfifo_handler_fill_complete [OF pre] obtain s' new where
    h: "otg_txfifo_handler example_config (\<lambda>k. 64) 64 example_tx_state = Some (True, s')"
    and p: "pushed s' = pushed example_tx_state @ new"
    and l: "length new = (unat (txsize (in_state example_tx_state)) + unat (64 :: 16 word) - 1)
                    div unat (64 :: 16 word)"
    and a: "\<forall>i < length new. fst (new ! i) = ucast (64 :: 16 word) \<or> Suc i = length new"
    and b: "sum_list (map fst new) = txsize (in_state example_tx_state)"
    and c: "txcnt (in_state s') = txsize (in_state example_tx_state)"
    and f: "txfifo s' = txfifo example_tx_state @
        concat (tx_packets (ram example_tx_state) (in_state example_tx_state)
                  (map (unat \<circ> fst) new))"
    by blast
  have l3: "length new = 3"
    using l by (simp add: example_tx_state_def example_in_state_def)
  then obtain x y z where n: "new = [x, y, z]"
    by (auto simp: eval_nat_numeral length_Suc_conv)
  have "fst x = 64" "fst y = 64"
    using a [rule_format, of 0] a [rule_format, of 1] by (simp_all add: n)
  moreover from this have "fst z = 2"
    using b by (simp add: n example_tx_state_def example_in_state_def)
  ultimately have sz: "map fst new = [64, 64, 2]" by (simp add: n)
  then have usz: "map (unat \<circ> fst) new = [64, 64, 2]"
    by (simp add: n)
  have ff: "txfifo s' = pack_words (map example_memory [0 ..< 64]) @
      pack_words (map example_memory [64 ..< 128]) @ pack_words (map example_memory [128 ..< 132])"
    unfolding f usz
    by (simp add: tx_packets_def example_tx_state_def example_in_state_def
        del: upt_rec_numeral)
  have len: "length (txfifo s') = 33"
    unfolding ff by (simp add: length_pack_words del: upt_rec_numeral)
  have lst: "last (txfifo s') = 0x83828180"
    unfolding ff last_bytes by (rule last_append3)
  have pn: "pushed s' = new" using p by (simp add: example_tx_state_def)
  have cn: "txcnt (in_state s') = 130"
    using c by (simp add: example_tx_state_def example_in_state_def)
  show ?thesis
    by (rule exI [of _ s'], rule exI [of _ new]) (intro conjI h pn sz len lst cn)
qed


text \<open>
  Claim C1 as stated fails for \<open>T = 0\<close>: the transaction end condition holds at once, and
  the handler returns \<open>True\<close> with the state unchanged, no packet recorded and the TX FIFO
  as empty as before, not even a packet of length zero written.
\<close>

theorem txfifo_handler_fill_complete_counterexample:
  "otg_txfifo_handler example_config (\<lambda>k. 64) 64
     (example_tx_state\<lparr>in_state := example_in_state\<lparr>txsize := 0\<rparr>\<rparr>)
     = Some (True, example_tx_state\<lparr>in_state := example_in_state\<lparr>txsize := 0\<rparr>\<rparr>) \<and>
   pushed (example_tx_state\<lparr>in_state := example_in_state\<lparr>txsize := 0\<rparr>\<rparr>) = [] \<and>
   txfifo (example_tx_state\<lparr>in_state := example_in_state\<lparr>txsize := 0\<rparr>\<rparr>) = []"
  by (subst otg_txfifo_handler.simps) (simp add: example_tx_state_def example_in_state_def)

text \<open>
  Claim C7. Entered with bytes remaining and a reported free space, in bytes, below the
  size of the next packet, \<^verbatim>\<open>otg_txfifo_handler\<close> returns \<open>False\<close> at once: nothing is
  written and only the status register has been read. Whenever it returns, it returns
  \<open>True\<close> exactly when the transferred count has reached the total size; the count has
  advanced by the sizes of the packets written, each a full packet except possibly the
  last one of a run that returns \<open>True\<close>. It always returns when the maximum packet size is not zero and the queue, if one
  is used, is well formed.
\<close>

theorem txfifo_handler_not_done:
  "(txcnt (in_state s) < txsize (in_state s) \<and>
      tx_space_short cfg d s (tx_packet_size m (in_state s)) \<longrightarrow>
      otg_txfifo_handler cfg d m s = Some (False, s\<lparr>DTXFSTS_reads := DTXFSTS_reads s + 1\<rparr>)) \<and>
   (\<forall>r s'. otg_txfifo_handler cfg d m s = Some (r, s') \<longrightarrow>
      (r \<longleftrightarrow> txsize (in_state s') \<le> txcnt (in_state s')) \<and>
      txsize (in_state s') = txsize (in_state s) \<and>
      (txcnt (in_state s) \<le> txsize (in_state s) \<longrightarrow>
         txcnt (in_state s') \<le> txsize (in_state s')) \<and>
      (\<exists>new. pushed s' = pushed s @ new \<and>
         txcnt (in_state s') = txcnt (in_state s) + sum_list (map fst new) \<and>
         (\<forall>i < length new. fst (new ! i) = ucast m \<or> (r \<and> Suc i = length new)))) \<and>
   (m \<noteq> 0 \<and> tx_ok s \<longrightarrow> (\<exists>r s'. otg_txfifo_handler cfg d m s = Some (r, s')))"
proof (intro conjI impI allI)
  assume "txcnt (in_state s) < txsize (in_state s) \<and>
      tx_space_short cfg d s (tx_packet_size m (in_state s))"
  then show "otg_txfifo_handler cfg d m s = Some (False, s\<lparr>DTXFSTS_reads := DTXFSTS_reads s + 1\<rparr>)"
    by (subst otg_txfifo_handler.simps) (simp add: not_le)
next
  fix r s'
  assume h: "otg_txfifo_handler cfg d m s = Some (r, s')"
  note post0 = handler_post [OF h]
  note post = post0 [unfolded tx_post_def, simplified]
  show r: "r \<longleftrightarrow> txsize (in_state s') \<le> txcnt (in_state s')" using post by blast
  show T: "txsize (in_state s') = txsize (in_state s)" using post by blast
  show "txcnt (in_state s') \<le> txsize (in_state s')" if "txcnt (in_state s) \<le> txsize (in_state s)"
    using post that by blast
  from post obtain new where
    p: "pushed s' = pushed s @ new"
    and t: "txcnt (in_state s') = txcnt (in_state s) + sum_list (map fst new)"
    and q: "\<forall>i < length new. fst (new ! i) \<le> ucast m \<and>
              (fst (new ! i) < ucast m \<longrightarrow>
                 snd (new ! i) = txsize (in_state s) \<and> Suc i = length new)"
    by blast
  have "fst (new ! i) = ucast m \<or> (r \<and> Suc i = length new)" if i: "i < length new" for i
  proof (cases "fst (new ! i) < ucast m")
    case False
    then show ?thesis using q i by (meson order_le_less)
  next
    case True
    then have l: "snd (new ! i) = txsize (in_state s)" "Suc i = length new"
      using q i by blast+
    have ne: "new \<noteq> []" using i by auto
    have "i = length new - 1" using l(2) by simp
    then have "last new = new ! i" using ne by (simp add: last_conv_nth)
    with ne have "txcnt (in_state s') = txsize (in_state s)"
      using tx_post_last [OF post0 p] l by simp
    then show ?thesis using r T l by simp
  qed
  then show "\<exists>new. pushed s' = pushed s @ new \<and>
         txcnt (in_state s') = txcnt (in_state s) + sum_list (map fst new) \<and>
         (\<forall>i < length new. fst (new ! i) = ucast m \<or> (r \<and> Suc i = length new))"
    using p t by blast
next
  assume "m \<noteq> 0 \<and> tx_ok s"
  then show "\<exists>r s'. otg_txfifo_handler cfg d m s = Some (r, s')"
    using handler_total [of m s cfg d] by auto
qed

theorem txfifo_handler_not_done_witness:
  "otg_txfifo_handler example_config (\<lambda>k. 8) 64
     (example_tx_state\<lparr>in_state := example_in_state\<lparr>txcnt := 64\<rparr>\<rparr>)
     = Some (False, example_tx_state\<lparr>in_state := example_in_state\<lparr>txcnt := 64\<rparr>,
                                     DTXFSTS_reads := 1\<rparr>)"
  using txfifo_handler_not_done [of "example_tx_state\<lparr>in_state := example_in_state\<lparr>txcnt := 64\<rparr>\<rparr>"
      example_config "\<lambda>k. 8" 64]
  by (simp add: example_tx_state_def example_in_state_def example_config_def
      tx_space_short_def tx_packet_size_def)

text \<open>
  Claim C8. Of the packets \<^verbatim>\<open>otg_txfifo_handler\<close> writes, each recorded with the
  transferred count right after it (the count at entry plus the sizes written so far),
  one of a size strictly between zero and the maximum packet size is the last one, and
  the transferred count after it is the total size of the transfer. The handler returns
  whenever the maximum packet size is not zero and the queue, if one is used, is well
  formed.
\<close>

theorem txfifo_handler_short_packet_last:
  "(\<forall>r s'. otg_txfifo_handler cfg d m s = Some (r, s') \<longrightarrow>
      (\<exists>new. pushed s' = pushed s @ new \<and>
         (\<forall>i < length new.
            snd (new ! i) = txcnt (in_state s) + sum_list (map fst (take (Suc i) new)) \<and>
            (0 < fst (new ! i) \<and> fst (new ! i) < ucast m \<longrightarrow>
               snd (new ! i) = txsize (in_state s') \<and> Suc i = length new)))) \<and>
   (m \<noteq> 0 \<and> tx_ok s \<longrightarrow> (\<exists>r s'. otg_txfifo_handler cfg d m s = Some (r, s')))"
proof (intro conjI impI allI)
  fix r s'
  assume h: "otg_txfifo_handler cfg d m s = Some (r, s')"
  note post = handler_post [OF h, unfolded tx_post_def, simplified]
  from post obtain new where
    p: "pushed s' = pushed s @ new"
    and q: "\<forall>i < length new.
           snd (new ! i) = txcnt (in_state s) + sum_list (map fst (take (Suc i) new)) \<and>
           (fst (new ! i) < ucast m \<longrightarrow>
              snd (new ! i) = txsize (in_state s) \<and> Suc i = length new)"
    by blast
  have T: "txsize (in_state s') = txsize (in_state s)" using post by blast
  show "\<exists>new. pushed s' = pushed s @ new \<and>
         (\<forall>i < length new.
            snd (new ! i) = txcnt (in_state s) + sum_list (map fst (take (Suc i) new)) \<and>
            (0 < fst (new ! i) \<and> fst (new ! i) < ucast m \<longrightarrow>
               snd (new ! i) = txsize (in_state s') \<and> Suc i = length new))"
    unfolding T using p q by blast
next
  assume "m \<noteq> 0 \<and> tx_ok s"
  then show "\<exists>r s'. otg_txfifo_handler cfg d m s = Some (r, s')"
    using handler_total [of m s cfg d] by auto
qed

theorem txfifo_handler_short_packet_last_witness:
  "\<exists>r s' new. otg_txfifo_handler example_config (\<lambda>k. 64) 64 example_tx_state = Some (r, s') \<and>
     pushed s' = new \<and>
     list_all (\<lambda>i. fst (new ! i) = 0 \<or> 64 \<le> fst (new ! i) \<or>
                 (snd (new ! i) = 130 \<and> Suc i = length new)) [0..<length new]"
proof -
  note inst = txfifo_handler_short_packet_last [of example_config "\<lambda>k. 64" 64 example_tx_state]
  have ok: "(64 :: 16 word) \<noteq> 0 \<and> tx_ok example_tx_state"
    by (simp add: tx_ok_def example_tx_state_def example_in_state_def)
  from inst ok obtain r s' where
    h: "otg_txfifo_handler example_config (\<lambda>k. 64) 64 example_tx_state = Some (r, s')"
    by blast
  from inst h obtain new where
    p: "pushed s' = pushed example_tx_state @ new"
    and q: "\<forall>i < length new.
            (0 < fst (new ! i) \<and> fst (new ! i) < ucast (64 :: 16 word) \<longrightarrow>
               snd (new ! i) = txsize (in_state s') \<and> Suc i = length new)"
    by blast
  have T: "txsize (in_state s') = 130"
    using handler_post [OF h] by (simp add: tx_post_def example_tx_state_def example_in_state_def)
  have u: "ucast (64 :: 16 word) = (64 :: u32)" by simp
  have pe: "pushed s' = new" using p by (simp add: example_tx_state_def)
  have "list_all (\<lambda>i. fst (new ! i) = 0 \<or> 64 \<le> fst (new ! i) \<or>
                 (snd (new ! i) = 130 \<and> Suc i = length new)) [0..<length new]"
    unfolding list_all_iff using q T u by (auto simp: word_neq_0_conv not_le)
  then show ?thesis using h pe by blast
qed

end
